theory Spec2Isabelle
  imports Main "HOL-Library.Word" "HOL-Library.Char_ord" "HOL-Library.List_Lexorder"
begin

unbundle bit_operations_syntax

section \<open>Data model (json.h)\<close>

text \<open>
  \<^verbatim>\<open>enum class JsonType\<close>, in declaration order; the destructor and the assignment
  operators test \<^verbatim>\<open>type_ >= JsonType::String\<close>, which \<open>owns_payload\<close> writes out.
\<close>

datatype JsonType = Null | Bool | Long | Float | Double | String | Array | Object

datatype JsonStatus =
    success
  | bad_double
  | absent_value
  | bad_negative
  | bad_exponent
  | missing_comma
  | missing_colon
  | malformed_utf8
  | depth_exceeded
  | stack_overflow
  | unexpected_eof
  | overlong_ascii
  | unexpected_comma
  | unexpected_colon
  | unexpected_octal
  | trailing_content
  | illegal_character
  | invalid_hex_escape
  | overlong_utf8_0x7ff
  | overlong_utf8_0xffff
  | object_missing_value
  | illegal_utf8_character
  | invalid_unicode_escape
  | utf16_surrogate_in_utf8
  | unexpected_end_of_array
  | hex_escape_not_printable
  | invalid_escape_character
  | utf8_exceeds_utf16_range
  | unexpected_end_of_string
  | unexpected_end_of_object
  | object_key_must_be_string
  | c1_control_code_in_string
  | non_del_c0_control_code_in_string
  | internal_error_unreachable_code

text \<open>
  The value held by a \<^verbatim>\<open>Json\<close>: the tag \<^verbatim>\<open>type_\<close> together with the active member of the
  union. A byte is a \<^typ>\<open>char\<close>, a \<^verbatim>\<open>std::string\<close> a \<^typ>\<open>string\<close>, \<^verbatim>\<open>long long\<close> a
  64-bit word. The two IEEE types are the parameters \<open>'f\<close> (float) and \<open>'d\<close> (double).
  A \<^verbatim>\<open>std::map<std::string, Json>\<close> is the list of its entries in iteration order, that
  is, in strictly increasing key order.
\<close>

datatype ('f, 'd) Json =
    JNull
  | JBool bool
  | JLong "64 word"
  | JFloat 'f
  | JDouble 'd
  | JString string
  | JArray "('f, 'd) Json list"
  | JObject "(string \<times> ('f, 'd) Json) list"

fun getType :: "('f, 'd) Json \<Rightarrow> JsonType" where
  "getType JNull = Null"
| "getType (JBool _) = Bool"
| "getType (JLong _) = Long"
| "getType (JFloat _) = Float"
| "getType (JDouble _) = Double"
| "getType (JString _) = String"
| "getType (JArray _) = Array"
| "getType (JObject _) = Object"

section \<open>Constants, macros and tables (json.cpp)\<close>

definition KEY :: int where "KEY = 1"
definition COMMA :: int where "COMMA = 2"
definition COLON :: int where "COLON = 4"
definition ARRAY :: int where "ARRAY = 8"
definition OBJECT :: int where "OBJECT = 16"
definition DEPTH :: nat where "DEPTH = 20"

definition ASCII :: nat where "ASCII = 0"
definition C0 :: nat where "C0 = 1"
definition DQUOTE :: nat where "DQUOTE = 2"
definition BACKSLASH :: nat where "BACKSLASH = 3"
definition UTF8_2 :: nat where "UTF8_2 = 4"
definition UTF8_3 :: nat where "UTF8_3 = 5"
definition UTF8_4 :: nat where "UTF8_4 = 6"
definition C1 :: nat where "C1 = 7"
definition UTF8_3_E0 :: nat where "UTF8_3_E0 = 8"
definition UTF8_3_ED :: nat where "UTF8_3_ED = 9"
definition UTF8_4_F0 :: nat where "UTF8_4_F0 = 10"
definition BADUTF8 :: nat where "BADUTF8 = 11"
definition EVILUTF8 :: nat where "EVILUTF8 = 12"

text \<open>\<^verbatim>\<open>p[i] & 255\<close>: the byte at offset \<open>i\<close> of the cursor, as an \<^verbatim>\<open>int\<close> in 0..255. Every
  use is behind the source's own bounds check \<^verbatim>\<open>p + n <= e\<close>.\<close>

definition byte_at :: "string \<Rightarrow> nat \<Rightarrow> int" where
  "byte_at p i = of_char (p ! i)"

definition IsSurrogate :: "int \<Rightarrow> bool" where
  "IsSurrogate wc \<longleftrightarrow> (0xf800 AND wc) = 0xd800"

definition IsHighSurrogate :: "int \<Rightarrow> bool" where
  "IsHighSurrogate wc \<longleftrightarrow> (wc AND 0xfc00) = 0xd800"

definition IsLowSurrogate :: "int \<Rightarrow> bool" where
  "IsLowSurrogate wc \<longleftrightarrow> (wc AND 0xfc00) = 0xdc00"

definition MergeUtf16 :: "int \<Rightarrow> int \<Rightarrow> int" where
  "MergeUtf16 hi lo = push_bit 10 (hi - 0xD800) + (lo - 0xDC00) + 0x10000"

text \<open>\<^verbatim>\<open>ThomPikeCont(x)\<close> is \<^verbatim>\<open>0200 == (0300 & x)\<close>.\<close>

definition ThomPikeCont :: "int \<Rightarrow> bool" where
  "ThomPikeCont x \<longleftrightarrow> (0xC0 AND x) = 0x80"

definition kJsonStr :: "nat list" where
  "kJsonStr =
    [ 1,  1,  1,  1,  1,  1,  1,  1] @
    [ 1,  1,  1,  1,  1,  1,  1,  1] @
    [ 1,  1,  1,  1,  1,  1,  1,  1] @
    [ 1,  1,  1,  1,  1,  1,  1,  1] @
    [ 0,  0,  2,  0,  0,  0,  0,  0] @
    [ 0,  0,  0,  0,  0,  0,  0,  0] @
    [ 0,  0,  0,  0,  0,  0,  0,  0] @
    [ 0,  0,  0,  0,  0,  0,  0,  0] @
    [ 0,  0,  0,  0,  0,  0,  0,  0] @
    [ 0,  0,  0,  0,  0,  0,  0,  0] @
    [ 0,  0,  0,  0,  0,  0,  0,  0] @
    [ 0,  0,  0,  0,  3,  0,  0,  0] @
    [ 0,  0,  0,  0,  0,  0,  0,  0] @
    [ 0,  0,  0,  0,  0,  0,  0,  0] @
    [ 0,  0,  0,  0,  0,  0,  0,  0] @
    [ 0,  0,  0,  0,  0,  0,  0,  0] @
    [ 7,  7,  7,  7,  7,  7,  7,  7] @
    [ 7,  7,  7,  7,  7,  7,  7,  7] @
    [ 7,  7,  7,  7,  7,  7,  7,  7] @
    [ 7,  7,  7,  7,  7,  7,  7,  7] @
    [11, 11, 11, 11, 11, 11, 11, 11] @
    [11, 11, 11, 11, 11, 11, 11, 11] @
    [11, 11, 11, 11, 11, 11, 11, 11] @
    [11, 11, 11, 11, 11, 11, 11, 11] @
    [12, 12,  4,  4,  4,  4,  4,  4] @
    [ 4,  4,  4,  4,  4,  4,  4,  4] @
    [ 4,  4,  4,  4,  4,  4,  4,  4] @
    [ 4,  4,  4,  4,  4,  4,  4,  4] @
    [ 8,  5,  5,  5,  5,  5,  5,  5] @
    [ 5,  5,  5,  5,  5,  9,  5,  5] @
    [10,  6,  6,  6,  6, 11, 11, 11] @
    [11, 11, 11, 11, 11, 11, 11, 11]"

definition kHexToInt :: "int list" where
  "kHexToInt =
    [-1, -1, -1, -1, -1, -1, -1, -1] @
    [-1, -1, -1, -1, -1, -1, -1, -1] @
    [-1, -1, -1, -1, -1, -1, -1, -1] @
    [-1, -1, -1, -1, -1, -1, -1, -1] @
    [-1, -1, -1, -1, -1, -1, -1, -1] @
    [-1, -1, -1, -1, -1, -1, -1, -1] @
    [ 0,  1,  2,  3,  4,  5,  6,  7] @
    [ 8,  9, -1, -1, -1, -1, -1, -1] @
    [-1, 10, 11, 12, 13, 14, 15, -1] @
    [-1, -1, -1, -1, -1, -1, -1, -1] @
    [-1, -1, -1, -1, -1, -1, -1, -1] @
    [-1, -1, -1, -1, -1, -1, -1, -1] @
    [-1, 10, 11, 12, 13, 14, 15, -1] @
    [-1, -1, -1, -1, -1, -1, -1, -1] @
    [-1, -1, -1, -1, -1, -1, -1, -1] @
    [-1, -1, -1, -1, -1, -1, -1, -1] @
    [-1, -1, -1, -1, -1, -1, -1, -1] @
    [-1, -1, -1, -1, -1, -1, -1, -1] @
    [-1, -1, -1, -1, -1, -1, -1, -1] @
    [-1, -1, -1, -1, -1, -1, -1, -1] @
    [-1, -1, -1, -1, -1, -1, -1, -1] @
    [-1, -1, -1, -1, -1, -1, -1, -1] @
    [-1, -1, -1, -1, -1, -1, -1, -1] @
    [-1, -1, -1, -1, -1, -1, -1, -1] @
    [-1, -1, -1, -1, -1, -1, -1, -1] @
    [-1, -1, -1, -1, -1, -1, -1, -1] @
    [-1, -1, -1, -1, -1, -1, -1, -1] @
    [-1, -1, -1, -1, -1, -1, -1, -1] @
    [-1, -1, -1, -1, -1, -1, -1, -1] @
    [-1, -1, -1, -1, -1, -1, -1, -1] @
    [-1, -1, -1, -1, -1, -1, -1, -1] @
    [-1, -1, -1, -1, -1, -1, -1, -1]"

text \<open>\<^verbatim>\<open>kHexToInt[p[i] & 255]\<close>.\<close>

definition hex_at :: "string \<Rightarrow> nat \<Rightarrow> int" where
  "hex_at p i = kHexToInt ! nat (byte_at p i)"

text \<open>\<^verbatim>\<open>A << 12 | B << 8 | C << 4 | D\<close> over the four hex digits starting at offset \<open>i\<close>.\<close>

definition hex4_at :: "string \<Rightarrow> nat \<Rightarrow> int" where
  "hex4_at p i =
     (push_bit 12 (hex_at p i) OR push_bit 8 (hex_at p (i + 1))
        OR push_bit 4 (hex_at p (i + 2)) OR hex_at p (i + 3))"

text \<open>The guard \<^verbatim>\<open>(A = kHexToInt[..]) != -1 && .. && (D = kHexToInt[..]) != -1\<close>.\<close>

definition hex4_ok :: "string \<Rightarrow> nat \<Rightarrow> bool" where
  "hex4_ok p i \<longleftrightarrow>
     hex_at p i \<noteq> -1 \<and> hex_at p (i + 1) \<noteq> -1 \<and> hex_at p (i + 2) \<noteq> -1 \<and> hex_at p (i + 3) \<noteq> -1"

section \<open>EncodeUTF8\<close>

text \<open>
  \<^verbatim>\<open>EncodeUTF8(w, c)\<close> fills \<^verbatim>\<open>char w[4]\<close> and returns the count \<open>i\<close>; the callers append
  \<^verbatim>\<open>w[0..i)\<close>, which is the list returned here. Storing an \<^verbatim>\<open>int\<close> in a \<^verbatim>\<open>char\<close> keeps its
  low eight bits (\<^const>\<open>char_of\<close>).
\<close>

definition EncodeUTF8 :: "int \<Rightarrow> string" where
  "EncodeUTF8 c =
     (if c \<le> 0x7f then [char_of c]
      else if c \<le> 0x7ff then
        [char_of (0xC0 OR drop_bit 6 c), char_of (0x80 OR (c AND 0x3F))]
      else if c \<le> 0xffff then
        (let c = (if IsSurrogate c then 0xfffd else c) in
         [char_of (0xE0 OR drop_bit 12 c),
          char_of (0x80 OR (drop_bit 6 c AND 0x3F)),
          char_of (0x80 OR (c AND 0x3F))])
      else if (NOT (drop_bit 18 c)) AND 7 \<noteq> 0 then
        [char_of (0xF0 OR drop_bit 18 c),
         char_of (0x80 OR (drop_bit 12 c AND 0x3F)),
         char_of (0x80 OR (drop_bit 6 c AND 0x3F)),
         char_of (0x80 OR (c AND 0x3F))]
      else
        (let c = (0xfffd::int) in
         [char_of (0xE0 OR drop_bit 12 c),
          char_of (0x80 OR (drop_bit 6 c AND 0x3F)),
          char_of (0x80 OR (c AND 0x3F))]))"

text \<open>\<^verbatim>\<open>BadUnicode()\<close> returns the two bytes backslash, \<open>u\<close>.\<close>

definition BadUnicode :: string where
  "BadUnicode = [CHR 0x5C, CHR ''u'']"


section \<open>The string tokenizer\<close>

text \<open>
  One iteration of the \<^verbatim>\<open>while (!bDone && status == success)\<close> loop of \<^verbatim>\<open>case '"'\<close>, after
  \<^verbatim>\<open>c = *p++ & 255\<close>: \<open>c\<close> is the byte read and \<open>p\<close> the input behind it. The iteration
  either appends bytes to \<open>b\<close> and moves the cursor on by \<open>k\<close> bytes (\<open>Append w k\<close>), or sets
  \<open>status\<close> (\<open>Fail status k\<close>), or meets the closing quote (\<open>Close\<close>).
\<close>

datatype str_action = Append string nat | Fail JsonStatus nat | Close

text \<open>The \<^verbatim>\<open>uint_least32_t\<close> word \<^verbatim>\<open>p[2] << 030 | p[1] << 020 | p[0] << 010 | p[-1]\<close>.\<close>

definition read_utf8_4 :: "int \<Rightarrow> string \<Rightarrow> int" where
  "read_utf8_4 c p =
     (push_bit 24 (byte_at p 2) OR push_bit 16 (byte_at p 1) OR push_bit 8 (byte_at p 0) OR c)"

text \<open>Storing that word in \<^verbatim>\<open>int A\<close>: values from \<open>2^31\<close> on become negative.\<close>

definition to_int32 :: "int \<Rightarrow> int" where
  "to_int32 u = (if u \<ge> 2 ^ 31 then u - 2 ^ 32 else u)"

definition escape_step :: "string \<Rightarrow> str_action" where
  "escape_step p =
     (case p of
        [] \<Rightarrow> Fail unexpected_end_of_string 0
      | ch # q \<Rightarrow>
         (let c = (of_char ch :: int) in
          if ch = CHR 0x22 \<or> ch = CHR ''/'' \<or> ch = CHR 0x5C then Append [char_of c] 1
          else if ch = CHR ''b'' then Append [CHR 0x08] 1
          else if ch = CHR ''f'' then Append [CHR 0x0C] 1
          else if ch = CHR ''n'' then Append [CHR 0x0A] 1
          else if ch = CHR ''r'' then Append [CHR 0x0D] 1
          else if ch = CHR ''t'' then Append [CHR 0x09] 1
          else if ch = CHR ''x'' then
            (if 2 \<le> length q \<and> hex_at q 0 \<noteq> -1 \<and> hex_at q 1 \<noteq> -1 then
               (let c = push_bit 4 (hex_at q 0) OR hex_at q 1 in
                if \<not> (0x20 \<le> c \<and> c \<le> 0x7E) then Fail hex_escape_not_printable 1
                else Append [char_of c] 3)
             else Fail invalid_hex_escape 1)
          else if ch = CHR ''u'' then
            (if 4 \<le> length q \<and> hex4_ok q 0 then
               (let c = hex4_at q 0 in
                if \<not> IsSurrogate c then Append (EncodeUTF8 c) 5
                else if IsHighSurrogate c then
                  (if 10 \<le> length q \<and> q ! 4 = CHR 0x5C \<and> q ! 5 = CHR ''u'' \<and> hex4_ok q 6 then
                     (let u = hex4_at q 6 in
                      if IsLowSurrogate u then Append (EncodeUTF8 (MergeUtf16 c u)) 11
                      else Append BadUnicode 1)
                   else Append BadUnicode 1)
                else Append BadUnicode 1)
             else Fail invalid_unicode_escape 1)
          else Fail invalid_escape_character 1))"

definition utf8_3_step :: "int \<Rightarrow> string \<Rightarrow> str_action" where
  "utf8_3_step c p =
     (if 2 \<le> length p \<and> (byte_at p 0 AND 0xC0) = 0x80 \<and> (byte_at p 1 AND 0xC0) = 0x80 then
        Append (EncodeUTF8 (push_bit 12 (c AND 0xF) OR push_bit 6 (byte_at p 0 AND 0x3F)
                              OR (byte_at p 1 AND 0x3F))) 2
      else Fail malformed_utf8 0)"

definition utf8_4_step :: "int \<Rightarrow> string \<Rightarrow> str_action" where
  "utf8_4_step c p =
     (if 3 \<le> length p \<and> (read_utf8_4 c p AND 0xC0C0C000) = 0x80808000 then
        (let A = to_int32 (read_utf8_4 c p);
             A = (push_bit 18 (A AND 7) OR push_bit 4 (A AND 0x3F00)
                    OR drop_bit 10 (A AND 0x3F0000) OR drop_bit 24 (A AND 0x3F000000))
         in if A \<le> 0x10FFFF then Append (EncodeUTF8 A) 3
            else Fail utf8_exceeds_utf16_range 0)
      else Fail malformed_utf8 0)"

definition string_step :: "int \<Rightarrow> string \<Rightarrow> str_action" where
  "string_step c p =
     (let k = kJsonStr ! nat c in
      if k = ASCII then Append [char_of c] 0
      else if k = DQUOTE then Close
      else if k = BACKSLASH then escape_step p
      else if k = UTF8_2 then
        (if 1 \<le> length p \<and> (byte_at p 0 AND 0xC0) = 0x80 then
           Append (EncodeUTF8 (push_bit 6 (c AND 0x1F) OR (byte_at p 0 AND 0x3F))) 1
         else Fail malformed_utf8 0)
      else if k = UTF8_3_E0 then
        (if 2 \<le> length p \<and> byte_at p 0 < 0xA0 \<and> (byte_at p 0 AND 0xC0) = 0x80
              \<and> (byte_at p 1 AND 0xC0) = 0x80
         then Fail overlong_utf8_0x7ff 0
         else utf8_3_step c p)
      else if k = UTF8_3_ED then
        (if 2 \<le> length p \<and> byte_at p 0 \<ge> 0xA0 then
           (if 5 \<le> length p \<and> byte_at p 0 \<ge> 0xAE \<and> (byte_at p 1 AND 0xC0) = 0x80
                 \<and> byte_at p 2 = 0xED \<and> byte_at p 3 \<ge> 0xB0 \<and> (byte_at p 4 AND 0xC0) = 0x80
            then
              (let A = push_bit 12 (0xED AND 0xF) OR push_bit 6 (byte_at p 0 AND 0x3F)
                         OR (byte_at p 1 AND 0x3F);
                   B = push_bit 12 (0xED AND 0xF) OR push_bit 6 (byte_at p 3 AND 0x3F)
                         OR (byte_at p 4 AND 0x3F)
               in Append (EncodeUTF8 (push_bit 10 (A - 0xDB80) + ((B - 0xDC00) + 0x10000))) 0)
            else if (byte_at p 0 AND 0xC0) = 0x80 \<and> (byte_at p 1 AND 0xC0) = 0x80
            then Fail utf16_surrogate_in_utf8 0
            else Fail malformed_utf8 0)
         else utf8_3_step c p)
      else if k = UTF8_3 then utf8_3_step c p
      else if k = UTF8_4_F0 then
        (if 3 \<le> length p \<and> byte_at p 0 < 0x90
              \<and> (read_utf8_4 c p AND 0xC0C0C000) = 0x80808000
         then Fail overlong_utf8_0xffff 0
         else utf8_4_step c p)
      else if k = UTF8_4 then utf8_4_step c p
      else if k = EVILUTF8 then
        (if 1 \<le> length p \<and> (byte_at p 0 AND 0xC0) = 0x80 then Fail overlong_ascii 0
         else Fail illegal_utf8_character 0)
      else if k = BADUTF8 then Fail illegal_utf8_character 0
      else if k = C0 then Fail non_del_c0_control_code_in_string 0
      else if k = C1 then Fail c1_control_code_in_string 0
      else Fail internal_error_unreachable_code 0)"

text \<open>
  The loop itself: \<open>b\<close> is the \<^verbatim>\<open>std::string\<close> under construction, the second argument the
  input from the cursor to \<open>e\<close>. The result is the status, \<open>b\<close> and the cursor.
\<close>

fun string_loop :: "string \<Rightarrow> string \<Rightarrow> JsonStatus \<times> string \<times> string" where
  "string_loop b [] = (unexpected_end_of_string, b, [])"
| "string_loop b (ch # p) =
     (case string_step (of_char ch) p of
        Close \<Rightarrow> (success, b, p)
      | Fail status k \<Rightarrow> (status, b, drop k p)
      | Append w k \<Rightarrow> string_loop (b @ w) (drop k p))"


section \<open>The number tokenizer\<close>

text \<open>
  Modelled from the spec: \<^verbatim>\<open>ckd_mul\<close> and \<open>ckd_add\<close> of \<^verbatim>\<open>jtckdint.h\<close>, which is not among the
  sources. The spec calls them "checked multiplication and addition"; as in C23's
  \<^verbatim>\<open><stdckdint.h>\<close> the wrapped result is stored and the return value says whether the exact
  result did not fit \<^verbatim>\<open>long long\<close>.
\<close>

definition fits_int64 :: "int \<Rightarrow> bool" where
  "fits_int64 i \<longleftrightarrow> - (2 ^ 63) \<le> i \<and> i < 2 ^ 63"

definition ckd_mul :: "64 word \<Rightarrow> 64 word \<Rightarrow> bool \<times> 64 word" where
  "ckd_mul a b = (\<not> fits_int64 (sint a * sint b), a * b)"

definition ckd_add :: "64 word \<Rightarrow> 64 word \<Rightarrow> bool \<times> 64 word" where
  "ckd_add a b = (\<not> fits_int64 (sint a + sint b), a + b)"

definition isdigit :: "int \<Rightarrow> bool" where
  "isdigit c \<longleftrightarrow> 0x30 \<le> c \<and> c \<le> 0x39"

text \<open>
  The result of a recursive \<^verbatim>\<open>parse\<close> call: the status, the \<^verbatim>\<open>Json& json\<close> as the call
  leaves it, and the cursor \<^verbatim>\<open>const char*& p\<close> (the input from \<open>p\<close> to \<open>e\<close>).
\<close>

type_synonym ('f, 'd) parse_result = "JsonStatus \<times> ('f, 'd) Json \<times> string"

text \<open>
  The \<^verbatim>\<open>if (bUseDouble)\<close> branch. \<open>s2d\<close> stands for \<^verbatim>\<open>StringToDouble(a, e - a, &c)\<close> of the
  external double-conversion library: given the bytes from the token start \<open>a\<close> to \<open>e\<close> it
  returns the double and the count \<open>c\<close> of bytes processed. \<open>p\<close> is the cursor, which the
  branch leaves alone when it fails.
\<close>

definition use_double ::
  "(string \<Rightarrow> 'd \<times> int) \<Rightarrow> string \<Rightarrow> string \<Rightarrow> ('f, 'd) parse_result" where
  "use_double s2d a p =
     (case s2d a of (v, c) \<Rightarrow>
        if c \<le> 0 then (bad_double, JDouble v, p)
        else if nat c < length a \<and> (a ! nat c = CHR ''e'' \<or> a ! nat c = CHR ''E'')
        then (bad_exponent, JDouble v, p)
        else (success, JDouble v, drop (nat c) a))"

text \<open>\<^verbatim>\<open>case '0'\<close>, after the context check; \<open>p\<close> is the input behind the \<open>0\<close>.\<close>

definition parse_zero ::
  "(string \<Rightarrow> 'd \<times> int) \<Rightarrow> ('f, 'd) Json \<Rightarrow> string \<Rightarrow> string \<Rightarrow> ('f, 'd) parse_result" where
  "parse_zero s2d json a p =
     (if p \<noteq> [] \<and> hd p = CHR ''.'' then
        (if length p = 1 \<or> \<not> isdigit (byte_at p 1) then (bad_double, json, p)
         else use_double s2d a p)
      else if p \<noteq> [] \<and> (hd p = CHR ''e'' \<or> hd p = CHR ''E'') then use_double s2d a p
      else if p \<noteq> [] \<and> isdigit (byte_at p 0) then (unexpected_octal, json, p)
      else (success, JLong 0, p))"

text \<open>
  The \<^verbatim>\<open>for (x = (c - '0') * d; p < e; ++p)\<close> loop of \<^verbatim>\<open>case '1'\<close> .. \<^verbatim>\<open>'9'\<close>. It ends with
  \<open>x\<close> complete (\<open>IntDone\<close>), with \<open>bUseDouble\<close> set (\<open>UseDouble\<close>), or by returning
  \<open>bad_double\<close> (\<open>BadDouble\<close>); each carries the cursor.
\<close>

datatype int_outcome = IntDone "64 word" string | UseDouble string | BadDouble string

fun int_loop :: "64 word \<Rightarrow> int \<Rightarrow> string \<Rightarrow> int_outcome" where
  "int_loop x d [] = IntDone x []"
| "int_loop x d (ch # p) =
     (let c = (of_char ch :: int) in
      if isdigit c then
        (case ckd_mul x 10 of (ov1, x1) \<Rightarrow>
           if ov1 then UseDouble (ch # p)
           else (case ckd_add x1 (of_int ((c - 0x30) * d)) of (ov2, x2) \<Rightarrow>
                   if ov2 then UseDouble (ch # p) else int_loop x2 d p))
      else if ch = CHR ''.'' then
        (if p = [] \<or> \<not> isdigit (byte_at p 0) then BadDouble (ch # p) else UseDouble (ch # p))
      else if ch = CHR ''e'' \<or> ch = CHR ''E'' then UseDouble (ch # p)
      else IntDone x (ch # p))"

text \<open>\<^verbatim>\<open>case '1'\<close> .. \<^verbatim>\<open>'9'\<close>, after the context check; \<open>c\<close> is the digit read, \<open>p\<close> the input
  behind it.\<close>

definition parse_digits ::
  "(string \<Rightarrow> 'd \<times> int) \<Rightarrow> ('f, 'd) Json \<Rightarrow> string \<Rightarrow> int \<Rightarrow> int \<Rightarrow> string
     \<Rightarrow> ('f, 'd) parse_result" where
  "parse_digits s2d json a d c p =
     (case int_loop (of_int ((c - 0x30) * d)) d p of
        BadDouble p' \<Rightarrow> (bad_double, json, p')
      | UseDouble p' \<Rightarrow> use_double s2d a p'
      | IntDone x p' \<Rightarrow> (success, JLong x, p'))"

section \<open>The structural parser\<close>

definition ReturnColonCommaErrorStatus :: "int \<Rightarrow> JsonStatus" where
  "ReturnColonCommaErrorStatus context =
     (if context AND COLON \<noteq> 0 then missing_colon else missing_comma)"

definition ReturnColonCommaKeyErrorStatus :: "int \<Rightarrow> JsonStatus" where
  "ReturnColonCommaKeyErrorStatus context =
     (if context AND KEY \<noteq> 0 then object_key_must_be_string
      else ReturnColonCommaErrorStatus context)"

text \<open>\<^verbatim>\<open>READ32LE(S)\<close> over the first four bytes of \<open>S\<close>.\<close>

definition READ32LE :: "string \<Rightarrow> int" where
  "READ32LE S =
     (push_bit 24 (byte_at S 3) OR push_bit 16 (byte_at S 2) OR push_bit 8 (byte_at S 1)
        OR byte_at S 0)"

text \<open>
  \<^verbatim>\<open>std::map::emplace\<close> on the sorted entry list: the entry is inserted at its place unless
  the key is present already, in which case the map is left as it is. The flag says
  whether the insertion took place.
\<close>

fun map_emplace :: "string \<Rightarrow> 'v \<Rightarrow> (string \<times> 'v) list \<Rightarrow> (string \<times> 'v) list \<times> bool" where
  "map_emplace k v [] = ([(k, v)], True)"
| "map_emplace k v ((k', v') # m) =
     (if k < k' then ((k, v) # (k', v') # m, True)
      else if k = k' then ((k', v') # m, False)
      else (case map_emplace k v m of (m', inserted) \<Rightarrow> ((k', v') # m', inserted)))"

text \<open>
  The \<^verbatim>\<open>for (context = ARRAY, i = 0;;)\<close> loop of \<^verbatim>\<open>case '['\<close>. \<open>P\<close> is the recursive call
  \<^verbatim>\<open>parse(ctx, value, p, e, context, depth - 1)\<close>; \<open>arr\<close> is \<^verbatim>\<open>json.array_value\<close>. Moving
  \<open>value\<close> into the vector leaves it Null (the move constructor).
\<close>

partial_function (option) array_loop ::
  "(('f, 'd) Json \<Rightarrow> string \<Rightarrow> int \<Rightarrow> ('f, 'd) parse_result option)
     \<Rightarrow> ('f, 'd) Json list \<Rightarrow> ('f, 'd) Json \<Rightarrow> int \<Rightarrow> string
     \<Rightarrow> ('f, 'd) parse_result option" where
  "array_loop P arr val context p =
     (case P val p context of
        None \<Rightarrow> None
      | Some (status, val', p') \<Rightarrow>
          if status = absent_value then Some (success, JArray arr, p')
          else if status \<noteq> success then Some (status, JArray arr, p')
          else array_loop P (arr @ [val']) JNull (ARRAY OR COMMA) p')"

declare array_loop.simps [code]


text \<open>
  The \<^verbatim>\<open>for (;;)\<close> loop of \<^verbatim>\<open>case '{'\<close>; \<open>obj\<close> is \<^verbatim>\<open>json.object_value\<close>. After
  \<^verbatim>\<open>emplace(std::move(key.string_value_), std::move(value))\<close> the key is cleared. \<open>value\<close> is
  Null once it has been moved into a new entry. When the key is present already the
  standard lets \<^verbatim>\<open>emplace\<close> construct the entry or not, so by then \<open>value\<close> is Null with
  some standard libraries and untouched with others: \<open>emplace_moves\<close> says which.
\<close>

partial_function (option) object_loop ::
  "(('f, 'd) Json \<Rightarrow> string \<Rightarrow> int \<Rightarrow> ('f, 'd) parse_result option)
     \<Rightarrow> bool \<Rightarrow> (string \<times> ('f, 'd) Json) list \<Rightarrow> ('f, 'd) Json \<Rightarrow> ('f, 'd) Json \<Rightarrow> int \<Rightarrow> string
     \<Rightarrow> ('f, 'd) parse_result option" where
  "object_loop P emplace_moves obj key val context p =
     (case P key p context of
        None \<Rightarrow> None
      | Some (status, key', p1) \<Rightarrow>
          if status = absent_value then Some (success, JObject obj, p1)
          else if status \<noteq> success then Some (status, JObject obj, p1)
          else (case key' of
                  JString k \<Rightarrow>
                    (case P val p1 COLON of
                       None \<Rightarrow> None
                     | Some (status2, val', p2) \<Rightarrow>
                         if status2 = absent_value then Some (object_missing_value, JObject obj, p2)
                         else if status2 \<noteq> success then Some (status2, JObject obj, p2)
                         else (case map_emplace k val' obj of (obj', inserted) \<Rightarrow>
                                 object_loop P emplace_moves obj' JNull
                                   (if inserted \<or> emplace_moves then JNull else val')
                                   (KEY OR COMMA OR OBJECT) p2))
                | _ \<Rightarrow> Some (object_key_must_be_string, JObject obj, p1)))"

declare object_loop.simps [code]

text \<open>
  The \<^verbatim>\<open>for (a = p, d = +1; p < e;)\<close> loop of the recursive \<^verbatim>\<open>parse\<close>, entered with
  \<open>depth\<close> not zero. The last argument is the input from the cursor to \<open>e\<close>; \<open>a\<close> is the
  input from the token start. \<open>P\<close> is the recursive call at \<open>depth - 1\<close>.
\<close>

fun parse_loop ::
  "(('f, 'd) Json \<Rightarrow> string \<Rightarrow> int \<Rightarrow> ('f, 'd) parse_result option)
     \<Rightarrow> (string \<Rightarrow> 'd \<times> int) \<Rightarrow> bool \<Rightarrow> nat
     \<Rightarrow> ('f, 'd) Json \<Rightarrow> string \<Rightarrow> int \<Rightarrow> int \<Rightarrow> string
     \<Rightarrow> ('f, 'd) parse_result option" where
  "parse_loop P s2d emplace_moves depth json a d context [] =
     Some (if depth = DEPTH then absent_value else unexpected_eof, json, [])"
| "parse_loop P s2d emplace_moves depth json a d context (ch # p) =
     (if ch = CHR '' '' \<or> ch = CHR 0x0A \<or> ch = CHR 0x0D \<or> ch = CHR 0x09 then
        parse_loop P s2d emplace_moves depth json p d context p
      else if ch = CHR '','' then
        (if context AND COMMA \<noteq> 0 then parse_loop P s2d emplace_moves depth json p d 0 p
         else Some (unexpected_comma, json, p))
      else if ch = CHR '':'' then
        (if context AND COLON \<noteq> 0 then parse_loop P s2d emplace_moves depth json p d 0 p
         else Some (unexpected_colon, json, p))
      else if ch = CHR ''n'' then
        (if context AND (KEY OR COLON OR COMMA) \<noteq> 0
         then Some (ReturnColonCommaKeyErrorStatus context, json, p)
         else if 3 \<le> length p \<and> READ32LE (ch # p) = READ32LE ''null''
         then Some (success, json, drop 3 p)
         else Some (illegal_character, json, p))
      else if ch = CHR ''f'' then
        (if context AND (KEY OR COLON OR COMMA) \<noteq> 0
         then Some (ReturnColonCommaKeyErrorStatus context, json, p)
         else if 4 \<le> length p \<and> READ32LE p = READ32LE ''alse''
         then Some (success, JBool False, drop 4 p)
         else Some (illegal_character, json, p))
      else if ch = CHR ''t'' then
        (if context AND (KEY OR COLON OR COMMA) \<noteq> 0
         then Some (ReturnColonCommaKeyErrorStatus context, json, p)
         else if 3 \<le> length p \<and> READ32LE (ch # p) = READ32LE ''true''
         then Some (success, JBool True, drop 3 p)
         else Some (illegal_character, json, p))
      else if ch = CHR ''-'' then
        (if context AND (COLON OR COMMA OR KEY) \<noteq> 0
         then Some (ReturnColonCommaKeyErrorStatus context, json, p)
         else if p \<noteq> [] \<and> isdigit (byte_at p 0)
         then parse_loop P s2d emplace_moves depth json a (- 1) context p
         else Some (bad_negative, json, p))
      else if ch = CHR ''0'' then
        (if context AND (COLON OR COMMA OR KEY) \<noteq> 0
         then Some (ReturnColonCommaKeyErrorStatus context, json, p)
         else Some (parse_zero s2d json a p))
      else if 0x31 \<le> (of_char ch :: int) \<and> (of_char ch :: int) \<le> 0x39 then
        (if context AND (COLON OR COMMA OR KEY) \<noteq> 0
         then Some (ReturnColonCommaKeyErrorStatus context, json, p)
         else Some (parse_digits s2d json a d (of_char ch) p))
      else if ch = CHR ''['' then
        (if context AND (COLON OR COMMA OR KEY) \<noteq> 0
         then Some (ReturnColonCommaKeyErrorStatus context, json, p)
         else array_loop P [] JNull ARRAY p)
      else if ch = CHR '']'' then
        Some (if context AND ARRAY \<noteq> 0 then absent_value else unexpected_end_of_array, json, p)
      else if ch = CHR ''}'' then
        Some (if context AND OBJECT \<noteq> 0 then absent_value else unexpected_end_of_object, json, p)
      else if ch = CHR ''{'' then
        (if context AND (COLON OR COMMA OR KEY) \<noteq> 0
         then Some (ReturnColonCommaKeyErrorStatus context, json, p)
         else object_loop P emplace_moves [] JNull JNull (KEY OR OBJECT) p)
      else if ch = CHR 0x22 then
        (if context AND (COLON OR COMMA) \<noteq> 0
         then Some (ReturnColonCommaErrorStatus context, json, p)
         else (case string_loop [] p of (status, b, p') \<Rightarrow>
                 Some (status, if status = success then JString b else json, p')))
      else Some (illegal_character, json, p))"

text \<open>
  The private \<^verbatim>\<open>Json::parse(ctx, json, p, e, context, depth)\<close>, by recursion on \<open>depth\<close>.
  A result \<open>None\<close> would be a call that does not return.
\<close>

primrec parse ::
  "(string \<Rightarrow> 'd \<times> int) \<Rightarrow> bool \<Rightarrow> nat \<Rightarrow> ('f, 'd) Json \<Rightarrow> string \<Rightarrow> int
     \<Rightarrow> ('f, 'd) parse_result option" where
  "parse s2d emplace_moves 0 = (\<lambda>json p context. Some (depth_exceeded, json, p))"
| "parse s2d emplace_moves (Suc n) =
     (\<lambda>json p context.
        parse_loop (parse s2d emplace_moves n) s2d emplace_moves (Suc n) json p 1 context p)"

text \<open>The public \<^verbatim>\<open>Json::parse(ctx, s, len)\<close>; the input is the bytes \<open>s[0..len)\<close>.\<close>

definition parse_public ::
  "(string \<Rightarrow> 'd \<times> int) \<Rightarrow> bool \<Rightarrow> string \<Rightarrow> (JsonStatus \<times> ('f, 'd) Json) option" where
  "parse_public s2d emplace_moves s =
     (case parse s2d emplace_moves DEPTH JNull s 0 of
        None \<Rightarrow> None
      | Some (first, json, p) \<Rightarrow>
          if first = success then
            (case parse s2d emplace_moves DEPTH (JNull :: ('f, 'd) Json) p 0 of
               None \<Rightarrow> None
             | Some (s2, j2, p') \<Rightarrow>
                 Some (if s2 \<noteq> absent_value then trailing_content else first, json))
          else Some (first, json))"


section \<open>Observers\<close>

text \<open>
  The observers of \<^verbatim>\<open>Json\<close>; \<open>None\<close> is the call of \<^verbatim>\<open>abort()\<close> in the \<^verbatim>\<open>default:\<close> branch.
  \<^verbatim>\<open>getFloat\<close> returns \<^verbatim>\<open>double_value\<close> through the implicit conversion of C++ from double to
  float, the parameter \<open>narrow\<close>; \<^verbatim>\<open>getDouble\<close> and \<^verbatim>\<open>getNumber\<close> return \<^verbatim>\<open>float_value\<close> through
  the conversion \<open>widen\<close> from float to double, and \<^verbatim>\<open>getNumber\<close> returns \<^verbatim>\<open>long_value\<close> through
  the conversion \<open>of_long\<close> from \<^verbatim>\<open>long long\<close> to double.
\<close>

definition getNumber ::
  "('f \<Rightarrow> 'd) \<Rightarrow> (64 word \<Rightarrow> 'd) \<Rightarrow> ('f, 'd) Json \<Rightarrow> 'd option" where
  "getNumber widen of_long json =
     (case json of
        JLong x \<Rightarrow> Some (of_long x)
      | JFloat f \<Rightarrow> Some (widen f)
      | JDouble d \<Rightarrow> Some d
      | _ \<Rightarrow> None)"

definition getLong :: "('f, 'd) Json \<Rightarrow> 64 word option" where
  "getLong json = (case json of JLong x \<Rightarrow> Some x | _ \<Rightarrow> None)"

definition getBool :: "('f, 'd) Json \<Rightarrow> bool option" where
  "getBool json = (case json of JBool b \<Rightarrow> Some b | _ \<Rightarrow> None)"

definition getFloat :: "('d \<Rightarrow> 'f) \<Rightarrow> ('f, 'd) Json \<Rightarrow> 'f option" where
  "getFloat narrow json =
     (case json of JFloat f \<Rightarrow> Some f | JDouble d \<Rightarrow> Some (narrow d) | _ \<Rightarrow> None)"

definition getDouble :: "('f \<Rightarrow> 'd) \<Rightarrow> ('f, 'd) Json \<Rightarrow> 'd option" where
  "getDouble widen json =
     (case json of JFloat f \<Rightarrow> Some (widen f) | JDouble d \<Rightarrow> Some d | _ \<Rightarrow> None)"

definition getString :: "('f, 'd) Json \<Rightarrow> string option" where
  "getString json = (case json of JString s \<Rightarrow> Some s | _ \<Rightarrow> None)"

definition getArray :: "('f, 'd) Json \<Rightarrow> ('f, 'd) Json list option" where
  "getArray json = (case json of JArray xs \<Rightarrow> Some xs | _ \<Rightarrow> None)"

definition getObject :: "('f, 'd) Json \<Rightarrow> (string \<times> ('f, 'd) Json) list option" where
  "getObject json = (case json of JObject m \<Rightarrow> Some m | _ \<Rightarrow> None)"


section \<open>Ownership of string storage: clear, destructor, move\<close>

text \<open>
  A \<^verbatim>\<open>Json\<close> object in memory. \<open>self\<close> is its address (\<^verbatim>\<open>this\<close>), \<open>ctx_ref\<close> the address of the
  \<^verbatim>\<open>JsonContext\<close> its reference member \<^verbatim>\<open>ctx_\<close> refers to, \<open>held\<close> the tag \<^verbatim>\<open>type_\<close> with the active
  union member, and \<open>string_view\<close> the \<^verbatim>\<open>StringView string_value__\<close>, whose pointer \<open>str\<close> is 0 for
  \<^verbatim>\<open>nullptr\<close>. The elements of \<^verbatim>\<open>array_value\<close> and the mapped values of \<^verbatim>\<open>object_value\<close> are
  \<^verbatim>\<open>Json\<close> objects themselves, stored in the buffer of the vector and in the nodes of the
  map: each has its own address, context and \<^verbatim>\<open>StringView\<close>.
\<close>

record StringView =
  str :: nat
  len :: nat

datatype ('f, 'd) Json_obj =
  Json_obj (self: nat) (ctx_ref: nat) (held: "('f, 'd) Payload") (string_view: StringView)
and ('f, 'd) Payload =
    PNull | PBool bool | PLong "64 word" | PFloat 'f | PDouble 'd | PString string
  | PArray "('f, 'd) Json_obj list"
  | PObject "(string \<times> ('f, 'd) Json_obj) list"

text \<open>The tag \<^verbatim>\<open>type_\<close> of a payload.\<close>

fun kind :: "('f, 'd) Payload \<Rightarrow> JsonType" where
  "kind PNull = Null"
| "kind (PBool b) = Bool"
| "kind (PLong x) = Long"
| "kind (PFloat x) = Float"
| "kind (PDouble x) = Double"
| "kind (PString s) = String"
| "kind (PArray xs) = Array"
| "kind (PObject m) = Object"

text \<open>
  The blocks handed out by \<^verbatim>\<open>Malloc\<close> and not yet freed are the pairs of a context and an
  address in the heap. The storage that \<^verbatim>\<open>std::string\<close>, \<^verbatim>\<open>std::vector\<close> and \<^verbatim>\<open>std::map\<close> get
  from their own allocator is not in the heap; what the model keeps of it is that the
  objects stored in a vector or map are gone once the container is destroyed. An access
  to such an object is the error \<open>UseAfterFree\<close>.
\<close>

type_synonym heap = "(nat \<times> nat) set"

datatype mem_error = InvalidFree | UseAfterFree

definition null_view :: StringView where
  "null_view = \<lparr>str = 0, len = 0\<rparr>"

text \<open>
  \<^verbatim>\<open>Malloc(ctx_ref, size, alignment)\<close>: no block for size 0, otherwise the block the allocator
  chooses, \<open>alloc h ctx_ref\<close>.
\<close>

definition Malloc :: "(heap \<Rightarrow> nat \<Rightarrow> nat) \<Rightarrow> heap \<Rightarrow> nat \<Rightarrow> nat \<Rightarrow> heap \<times> nat" where
  "Malloc alloc h c n =
     (if n > 0 then (insert (c, alloc h c) h, alloc h c) else (h, 0))"

text \<open>
  \<^verbatim>\<open>Free(ctx_ref, ptr)\<close>: freeing \<^verbatim>\<open>nullptr\<close> does nothing; freeing a block that is not
  allocated (a second free of the same block, for one) is the error \<open>InvalidFree\<close>.
\<close>

definition Free :: "heap \<Rightarrow> nat \<Rightarrow> nat \<Rightarrow> mem_error + heap" where
  "Free h c ptr =
     (if ptr = 0 then Inr h
      else if (c, ptr) \<in> h then Inr (h - {(c, ptr)})
      else Inl InvalidFree)"

text \<open>\<^verbatim>\<open>type_ >= JsonType::String\<close>.\<close>

definition owns_payload :: "JsonType \<Rightarrow> bool" where
  "owns_payload t \<longleftrightarrow> t = String \<or> t = Array \<or> t = Object"

text \<open>
  \<^verbatim>\<open>Json::clear()\<close> and \<^verbatim>\<open>Json::~Json()\<close>. For a String, \<^verbatim>\<open>clear\<close> frees the block of the
  \<^verbatim>\<open>StringView\<close> and nulls it. For an Array it runs \<^verbatim>\<open>array_value.~vector()\<close>, which runs
  \<^verbatim>\<open>~Json()\<close> on every element and releases the buffer (\<open>destroy_vector\<close>); for an Object
  \<^verbatim>\<open>object_value.~map()\<close> does the same with the mapped values (\<open>destroy_map\<close>). \<^verbatim>\<open>clear\<close>
  returns the heap and the object as it leaves it; the destructor returns the heap once
  the object is gone.
\<close>

fun clear :: "heap \<Rightarrow> ('f, 'd) Json_obj \<Rightarrow> mem_error + heap \<times> ('f, 'd) Json_obj"
  and destroy :: "heap \<Rightarrow> ('f, 'd) Json_obj \<Rightarrow> mem_error + heap"
  and destroy_vector :: "heap \<Rightarrow> ('f, 'd) Json_obj list \<Rightarrow> mem_error + heap"
  and destroy_map :: "heap \<Rightarrow> (string \<times> ('f, 'd) Json_obj) list \<Rightarrow> mem_error + heap"
where
  "clear h (Json_obj a c v sv) =
     (case v of
        PString s \<Rightarrow>
          (case Free h c (str sv) of
             Inl e \<Rightarrow> Inl e
           | Inr h' \<Rightarrow> Inr (h', Json_obj a c PNull null_view))
      | PArray xs \<Rightarrow>
          (case destroy_vector h xs of
             Inl e \<Rightarrow> Inl e
           | Inr h' \<Rightarrow> Inr (h', Json_obj a c PNull sv))
      | PObject m \<Rightarrow>
          (case destroy_map h m of
             Inl e \<Rightarrow> Inl e
           | Inr h' \<Rightarrow> Inr (h', Json_obj a c PNull sv))
      | _ \<Rightarrow> Inr (h, Json_obj a c PNull sv))"
| "destroy h (Json_obj a c v sv) =
     (if owns_payload (kind v) then
        (case clear h (Json_obj a c v sv) of Inl e \<Rightarrow> Inl e | Inr (h', this') \<Rightarrow> Inr h')
      else Inr h)"
| "destroy_vector h [] = Inr h"
| "destroy_vector h (x # xs) =
     (case destroy h x of Inl e \<Rightarrow> Inl e | Inr h' \<Rightarrow> destroy_vector h' xs)"
| "destroy_map h [] = Inr h"
| "destroy_map h ((k, x) # m) =
     (case destroy h x of Inl e \<Rightarrow> Inl e | Inr h' \<Rightarrow> destroy_map h' m)"

text \<open>
  The addresses of the objects stored inside an object: the elements of its array or the
  mapped values of its object, and what is stored inside those. They are the objects that
  \<^verbatim>\<open>clear\<close> destroys.
\<close>

fun elements :: "('f, 'd) Json_obj \<Rightarrow> nat list"
  and elements_vector :: "('f, 'd) Json_obj list \<Rightarrow> nat list"
  and elements_map :: "(string \<times> ('f, 'd) Json_obj) list \<Rightarrow> nat list"
where
  "elements (Json_obj a c v sv) =
     (case v of PArray xs \<Rightarrow> elements_vector xs | PObject m \<Rightarrow> elements_map m | _ \<Rightarrow> [])"
| "elements_vector [] = []"
| "elements_vector (x # xs) = self x # elements x @ elements_vector xs"
| "elements_map [] = []"
| "elements_map ((k, x) # m) = self x # elements x @ elements_map m"

text \<open>
  \<^verbatim>\<open>Json::Json(Json&& other)\<close>, constructing the object at address \<open>a\<close>: the new object and
  \<open>other\<close> as it is left. The constructor calls neither \<^verbatim>\<open>Malloc\<close> nor \<^verbatim>\<open>Free\<close>; moving a vector
  or map hands over its buffer or nodes, so the objects stored inside stay where they are.
\<close>

definition move_construct ::
  "nat \<Rightarrow> ('f, 'd) Json_obj \<Rightarrow> ('f, 'd) Json_obj \<times> ('f, 'd) Json_obj" where
  "move_construct a other =
     (case held other of
        PString s \<Rightarrow>
          (Json_obj a (ctx_ref other) (PString s) (string_view other),
           Json_obj (self other) (ctx_ref other) PNull null_view)
      | v \<Rightarrow>
          (Json_obj a (ctx_ref other) v null_view,
           Json_obj (self other) (ctx_ref other) PNull (string_view other)))"

text \<open>
  \<^verbatim>\<open>Json::operator=(Json&& other)\<close>: the heap, \<^verbatim>\<open>*this\<close> and \<open>other\<close> afterwards. With
  \<^verbatim>\<open>this == &other\<close> nothing happens. Otherwise \<^verbatim>\<open>clear()\<close> runs first, when \<^verbatim>\<open>*this\<close> owns a
  payload, and \<open>other\<close> is read after it (\<^verbatim>\<open>type_ = other.type_\<close>): when \<open>other\<close> is stored inside
  \<^verbatim>\<open>*this\<close>, \<^verbatim>\<open>clear()\<close> has destroyed it and released its storage, and the read is a use after
  free. \<^verbatim>\<open>memcpy\<close> changes the content of a block, not which blocks are allocated. A
  destination stored inside the source would, after the move, own the container it is
  stored in; the model, in which an object holds the objects stored inside it, has no
  picture of that.
\<close>

definition move_assign ::
  "(heap \<Rightarrow> nat \<Rightarrow> nat) \<Rightarrow> heap \<Rightarrow> ('f, 'd) Json_obj \<Rightarrow> ('f, 'd) Json_obj
     \<Rightarrow> mem_error + heap \<times> ('f, 'd) Json_obj \<times> ('f, 'd) Json_obj" where
  "move_assign alloc h this other =
     (if self this \<noteq> self other then
        (case (if owns_payload (kind (held this)) then clear h this else Inr (h, this)) of
           Inl e \<Rightarrow> Inl e
         | Inr (h1, this1) \<Rightarrow>
             if self other \<in> set (elements this) then Inl UseAfterFree
             else
               (case held other of
                  PString s \<Rightarrow>
                    (if ctx_ref other = ctx_ref this1 then
                       Inr (h1,
                            Json_obj (self this1) (ctx_ref this1) (PString s) (string_view other),
                            Json_obj (self other) (ctx_ref other) PNull null_view)
                     else
                       (case Malloc alloc h1 (ctx_ref this1) (len (string_view other)) of
                          (h2, p) \<Rightarrow>
                            (case Free h2 (ctx_ref other) (str (string_view other)) of
                               Inl e \<Rightarrow> Inl e
                             | Inr h3 \<Rightarrow>
                                 Inr (h3,
                                      Json_obj (self this1) (ctx_ref this1) (PString s)
                                        \<lparr>str = p, len = len (string_view other)\<rparr>,
                                      Json_obj (self other) (ctx_ref other) PNull null_view))))
                | v \<Rightarrow>
                    Inr (h1,
                         Json_obj (self this1) (ctx_ref this1) v (string_view this1),
                         Json_obj (self other) (ctx_ref other) PNull (string_view other))))
      else Inr (h, this, other))"

text \<open>
  The blocks that an object and the objects stored inside it hold, and an object that
  owns them: no block is held twice, every block is allocated, and the \<^verbatim>\<open>StringView\<close> of the
  object is null unless its kind is String.
\<close>

fun blocks :: "('f, 'd) Json_obj \<Rightarrow> (nat \<times> nat) list"
  and blocks_vector :: "('f, 'd) Json_obj list \<Rightarrow> (nat \<times> nat) list"
  and blocks_map :: "(string \<times> ('f, 'd) Json_obj) list \<Rightarrow> (nat \<times> nat) list"
where
  "blocks (Json_obj a c v sv) =
     (case v of
        PString s \<Rightarrow> (if str sv = 0 then [] else [(c, str sv)])
      | PArray xs \<Rightarrow> blocks_vector xs
      | PObject m \<Rightarrow> blocks_map m
      | _ \<Rightarrow> [])"
| "blocks_vector [] = []"
| "blocks_vector (x # xs) = blocks x @ blocks_vector xs"
| "blocks_map [] = []"
| "blocks_map ((k, x) # m) = blocks x @ blocks_map m"

definition owns :: "heap \<Rightarrow> ('f, 'd) Json_obj \<Rightarrow> bool" where
  "owns h x \<longleftrightarrow>
     distinct (blocks x) \<and> set (blocks x) \<subseteq> h
     \<and> (kind (held x) \<noteq> String \<longrightarrow> string_view x = null_view)"

section \<open>Notions used in the statements and proofs\<close>

text \<open>The four bytes the parser skips as whitespace: space, LF, CR, tab.\<close>

definition is_space :: "char \<Rightarrow> bool" where
  "is_space ch \<longleftrightarrow> ch = CHR '' '' \<or> ch = CHR 0x0A \<or> ch = CHR 0x0D \<or> ch = CHR 0x09"

definition all_ws :: "string \<Rightarrow> bool" where
  "all_ws s = list_all is_space s"

text \<open>An input of \<open>n\<close> opening brackets followed by \<open>n\<close> closing ones, and the value
  of \<open>n + 1\<close> arrays nested in each other.\<close>

definition nested_input :: "nat \<Rightarrow> string" where
  "nested_input n = replicate n (CHR ''['') @ replicate n (CHR '']'')"

fun nested_arrays :: "nat \<Rightarrow> ('f, 'd) Json" where
  "nested_arrays 0 = JArray []"
| "nested_arrays (Suc n) = JArray [nested_arrays n]"

text \<open>A byte that is a decimal digit, and the fold of the spec over the unbounded integers:
  the accumulator becomes ten times itself plus the digit times \<open>d\<close>.\<close>

definition digit_char :: "char \<Rightarrow> bool" where
  "digit_char ch \<longleftrightarrow> isdigit (of_char ch)"

definition fold_digits :: "int \<Rightarrow> int \<Rightarrow> string \<Rightarrow> int" where
  "fold_digits d acc ds = foldl (\<lambda>acc ch. acc * 10 + (of_char ch - 0x30) * d) acc ds"

text \<open>The number a string of decimal digits denotes.\<close>

definition decimal :: "string \<Rightarrow> int" where
  "decimal ds = foldl (\<lambda>acc ch. acc * 10 + (of_char ch - 0x30)) 0 ds"

text \<open>The entries of a \<^verbatim>\<open>std::map\<close> in iteration order: the keys increase strictly, in
  the byte-wise lexicographic order of \<^verbatim>\<open>std::string\<close>.\<close>

definition sorted_keys :: "(string \<times> 'v) list \<Rightarrow> bool" where
  "sorted_keys m \<longleftrightarrow> sorted_wrt (<) (map fst m)"


text \<open>A string action that does not set the status to \<open>success\<close> or \<open>absent_value\<close>.\<close>

definition ok_action :: "str_action \<Rightarrow> bool" where
  "ok_action a \<longleftrightarrow>
     (case a of Fail st k \<Rightarrow> st \<noteq> absent_value \<and> st \<noteq> success | _ \<Rightarrow> True)"

text \<open>A recursive call that returns, never moves the cursor backwards, and consumes
  input whenever it succeeds.\<close>

definition good ::
  "(('f, 'd) Json \<Rightarrow> string \<Rightarrow> int \<Rightarrow> ('f, 'd) parse_result option) \<Rightarrow> bool" where
  "good P \<longleftrightarrow>
     (\<forall>json p ctx. \<exists>st j p'. P json p ctx = Some (st, j, p') \<and> length p' \<le> length p
        \<and> (st = success \<longrightarrow> length p' < length p))"

definition res_ok :: "nat \<Rightarrow> ('f, 'd) parse_result option \<Rightarrow> bool" where
  "res_ok n r \<longleftrightarrow>
     (\<exists>st j p'. r = Some (st, j, p') \<and> length p' \<le> n \<and> (st = success \<longrightarrow> length p' < n))"

definition out_len :: "int_outcome \<Rightarrow> nat" where
  "out_len r =
     (case r of IntDone x p \<Rightarrow> length p | UseDouble p \<Rightarrow> length p | BadDouble p \<Rightarrow> length p)"

definition is_absent :: "('f, 'd) parse_result option \<Rightarrow> bool" where
  "is_absent r \<longleftrightarrow> (\<exists>j p'. r = Some (absent_value, j, p'))"

text \<open>
  The UTF-8 encoding of a code point, as the standard tabulates it (RFC 3629): the
  payload bits, taken with \<open>div\<close> and \<open>mod\<close>, are added to the marker of each byte. It is
  what "encoded as UTF-8" means in the claims, and \<open>EncodeUTF8\<close> is compared with it.
\<close>

definition utf8_encoding :: "int \<Rightarrow> string" where
  "utf8_encoding c =
     (if c < 0x80 then [char_of c]
      else if c < 0x800 then [char_of (0xC0 + c div 0x40), char_of (0x80 + c mod 0x40)]
      else if c < 0x10000 then
        [char_of (0xE0 + c div 0x1000), char_of (0x80 + c div 0x40 mod 0x40),
         char_of (0x80 + c mod 0x40)]
      else
        [char_of (0xF0 + c div 0x40000), char_of (0x80 + c div 0x1000 mod 0x40),
         char_of (0x80 + c div 0x40 mod 0x40), char_of (0x80 + c mod 0x40)])"

text \<open>A Unicode scalar value: a code point that is not a surrogate.\<close>

definition scalar_value :: "int \<Rightarrow> bool" where
  "scalar_value c \<longleftrightarrow> 0 \<le> c \<and> c \<le> 0x10FFFF \<and> \<not> (0xD800 \<le> c \<and> c \<le> 0xDFFF)"

text \<open>
  What the loop of the recursive parse skips before a value: whitespace, and a comma or
  colon that the context admits. The result is the context left behind them, or \<open>None\<close>
  when a byte of the prefix is not skipped.
\<close>

fun skip_ctx :: "int \<Rightarrow> string \<Rightarrow> int option" where
  "skip_ctx context [] = Some context"
| "skip_ctx context (ch # p) =
     (if is_space ch then skip_ctx context p
      else if ch = CHR '','' \<and> context AND COMMA \<noteq> 0 then skip_ctx 0 p
      else if ch = CHR '':'' \<and> context AND COLON \<noteq> 0 then skip_ctx 0 p
      else None)"

text \<open>
  A stand-in for \<^verbatim>\<open>StringToDouble\<close> in examples: it takes the longest prefix made of the
  characters of a number, hands it back as the value, and reports its length.
\<close>

definition number_char :: "char \<Rightarrow> bool" where
  "number_char ch \<longleftrightarrow> ch \<in> set ''0123456789+-.eE''"

definition sample_s2d :: "string \<Rightarrow> string \<times> int" where
  "sample_s2d a = (takeWhile number_char a, int (length (takeWhile number_char a)))"

text \<open>
  The members that the text of an object denotes: starting at \<open>p\<close> in the context
  \<open>context\<close>, the calls \<open>P\<close> of the object loop, each made with a fresh (Null) variable, read
  the keys and values \<open>ms\<close> one after the other and then the closing brace, which leaves the
  cursor at \<open>p'\<close>.
\<close>

fun reads ::
  "(('f, 'd) Json \<Rightarrow> string \<Rightarrow> int \<Rightarrow> ('f, 'd) parse_result option)
     \<Rightarrow> int \<Rightarrow> string \<Rightarrow> (string \<times> ('f, 'd) Json) list \<Rightarrow> string \<Rightarrow> bool" where
  "reads P context p [] p' =
     (case P JNull p context of
        None \<Rightarrow> False
      | Some (st, j, q) \<Rightarrow> st = absent_value \<and> q = p')"
| "reads P context p ((k, v) # ms) p' =
     (case P JNull p context of
        None \<Rightarrow> False
      | Some (st, key, p1) \<Rightarrow>
          st = success \<and> key = JString k \<and>
          (case P JNull p1 COLON of
             None \<Rightarrow> False
           | Some (st2, v', p2) \<Rightarrow>
               st2 = success \<and> v' = v \<and> reads P (KEY OR COMMA OR OBJECT) p2 ms p'))"

text \<open>
  No member with the value \<open>null\<close> directly follows a member that repeats an earlier key
  with a value other than \<open>null\<close>. \<open>seen\<close> holds the keys met so far, and \<open>var\<close> is the value
  of the member before if that member repeated a key, and Null otherwise.
\<close>

fun clean :: "string list \<Rightarrow> ('f, 'd) Json \<Rightarrow> (string \<times> ('f, 'd) Json) list \<Rightarrow> bool" where
  "clean seen var [] = True"
| "clean seen var ((k, v) # ms) =
     ((v = JNull \<longrightarrow> var = JNull)
      \<and> clean (k # seen) (if k \<in> set seen then v else JNull) ms)"

text \<open>The object that first-writer-wins insertion of the members \<open>ms\<close> into \<open>obj\<close> gives.\<close>

fun first_wins :: "(string \<times> 'v) list \<Rightarrow> (string \<times> 'v) list \<Rightarrow> (string \<times> 'v) list" where
  "first_wins obj [] = obj"
| "first_wins obj ((k, v) # ms) = first_wins (fst (map_emplace k v obj)) ms"

text \<open>Two results that agree whenever the first is a success with a value other than Null.\<close>

definition same_value ::
  "('f, 'd) parse_result option \<Rightarrow> ('f, 'd) parse_result option \<Rightarrow> bool" where
  "same_value r0 r \<longleftrightarrow>
     (\<forall>v p'. r0 = Some (success, v, p') \<and> v \<noteq> JNull \<longrightarrow> r = Some (success, v, p'))"

section \<open>Properties\<close>

subsection \<open>Evaluation on concrete inputs\<close>

lemmas ctx_defs = KEY_def COMMA_def COLON_def ARRAY_def OBJECT_def

lemmas str_ev = kJsonStr_def kHexToInt_def byte_at_def hex_at_def hex4_at_def hex4_ok_def
  string_step_def escape_step_def utf8_3_step_def utf8_4_step_def read_utf8_4_def to_int32_def
  EncodeUTF8_def BadUnicode_def IsSurrogate_def IsHighSurrogate_def IsLowSurrogate_def
  MergeUtf16_def ASCII_def C0_def DQUOTE_def BACKSLASH_def UTF8_2_def UTF8_3_def UTF8_4_def
  C1_def UTF8_3_E0_def UTF8_3_ED_def UTF8_4_F0_def BADUTF8_def EVILUTF8_def char_of_def
  bit_Suc_0_iff Let_def

lemmas parse_ev = parse_public_def DEPTH_def eval_nat_numeral array_loop.simps
  object_loop.simps ctx_defs ReturnColonCommaErrorStatus_def
  ReturnColonCommaKeyErrorStatus_def READ32LE_def byte_at_def isdigit_def parse_zero_def
  parse_digits_def ckd_mul_def ckd_add_def fits_int64_def

subsection \<open>The string tokenizer never reports \<open>success\<close> or \<open>absent_value\<close> as an error\<close>

lemma ok_action_simps:
  "ok_action (Append w k) = True"
  "ok_action Close = True"
  "ok_action (Fail st k) = (st \<noteq> absent_value \<and> st \<noteq> success)"
  "ok_action (if c then x else y) = (if c then ok_action x else ok_action y)"
  "ok_action (Let v f) = (let x = v in ok_action (f x))"
  "ok_action (case p of [] \<Rightarrow> a | ch # q \<Rightarrow> g ch q) = (case p of [] \<Rightarrow> ok_action a | ch # q \<Rightarrow> ok_action (g ch q))"
  by (simp_all add: ok_action_def split: list.split)

lemma list_case_const: "(case p of [] \<Rightarrow> x | ch # q \<Rightarrow> x) = x"
  by (cases p) auto

lemma ok_escape_step: "ok_action (escape_step p)"
  unfolding escape_step_def
  by (simp add: ok_action_simps list_case_const cong: if_cong list.case_cong)

lemma ok_utf8_3_step: "ok_action (utf8_3_step c p)"
  unfolding utf8_3_step_def by (simp add: ok_action_simps)

lemma ok_utf8_4_step: "ok_action (utf8_4_step c p)"
  unfolding utf8_4_step_def by (simp add: ok_action_simps cong: if_cong)

lemma ok_string_step: "ok_action (string_step c p)"
  unfolding string_step_def
  by (simp add: ok_action_simps ok_escape_step ok_utf8_3_step ok_utf8_4_step cong: if_cong)

lemma string_loop_props:
  "string_loop b p = (st, b', p') \<Longrightarrow>
     st \<noteq> absent_value \<and> length p' \<le> length p \<and> (st = success \<longrightarrow> length p' < length p)"
proof (induction b p rule: string_loop.induct)
  case (1 b)
  then show ?case by auto
next
  case (2 b ch p)
  show ?case
  proof (cases "string_step (of_char ch) p")
    case (Append w k)
    with 2 have "st \<noteq> absent_value \<and> length p' \<le> length (drop k p)
        \<and> (st = success \<longrightarrow> length p' < length (drop k p))"
      by simp
    then show ?thesis by auto
  next
    case (Fail s k)
    with 2 ok_string_step[of "of_char ch" p] show ?thesis by (auto simp: ok_action_def)
  next
    case Close
    with 2 show ?thesis by auto
  qed
qed

lemma res_ok_mono: "res_ok m r \<Longrightarrow> m \<le> n \<Longrightarrow> res_ok n r"
  by (auto simp: res_ok_def)

lemma res_ok_strict: "length p' < n \<Longrightarrow> res_ok n (Some (st, j, p'))"
  by (simp add: res_ok_def)

lemma res_ok_if: "res_ok n (if c then x else y) = (if c then res_ok n x else res_ok n y)"
  by simp

lemma res_ok_Some_if:
  "res_ok n (Some (if c then x else y)) = (if c then res_ok n (Some x) else res_ok n (Some y))"
  by simp

lemma int_loop_len: "out_len (int_loop x d p) \<le> length p"
proof (induction p arbitrary: x)
  case Nil
  show ?case by (simp add: out_len_def)
next
  case (Cons ch p)
  have "out_len (int_loop y d p) \<le> Suc (length p)" for y
    using Cons[of y] by simp
  then show ?case
    by (simp add: out_len_def[of "UseDouble _"] out_len_def[of "BadDouble _"] out_len_def[of "IntDone _ _"] Let_def split: prod.split)
qed

lemma use_double_ok: "a \<noteq> [] \<Longrightarrow> length p < length a \<Longrightarrow> res_ok (length a) (Some (use_double s2d a p))"
  by (auto simp: use_double_def res_ok_def split: prod.split)

lemma parse_zero_ok:
  assumes "length p < length a"
  shows "res_ok (length a) (Some (parse_zero s2d json a p))"
proof -
  from assms have "a \<noteq> []" by auto
  note U = use_double_ok[OF this assms]
  show ?thesis
    unfolding parse_zero_def
    by (simp add: res_ok_if res_ok_Some_if U res_ok_strict assms cong: if_cong)
qed

lemma parse_digits_ok:
  assumes "length p < length a"
  shows "res_ok (length a) (Some (parse_digits s2d json a d c p))"
proof -
  from assms have a: "a \<noteq> []" by auto
  show ?thesis
    using int_loop_len[of "of_int ((c - 0x30) * d)" d p] assms
    by (cases "int_loop (of_int ((c - 0x30) * d)) d p")
       (auto simp: parse_digits_def out_len_def res_ok_strict intro!: use_double_ok[OF a])
qed

lemma array_loop_good:
  assumes "good P"
  shows "\<exists>st j p'. array_loop P arr v c p = Some (st, j, p') \<and> length p' \<le> length p \<and> st \<noteq> absent_value"
proof (induction "length p" arbitrary: p arr v c rule: less_induct)
  case less
  obtain st v' p1 where P: "P v p c = Some (st, v', p1)" "length p1 \<le> length p"
      "st = success \<longrightarrow> length p1 < length p"
    using assms unfolding good_def by blast
  show ?case
  proof (cases "st = success")
    case True
    with P have "length p1 < length p" by simp
    from less[OF this, of "arr @ [v']" JNull "ARRAY OR COMMA"] P True show ?thesis
      by (subst array_loop.simps) auto
  next
    case False
    then show ?thesis using P by (subst array_loop.simps) auto
  qed
qed

lemma object_loop_good:
  assumes "good P"
  shows "\<exists>st j p'. object_loop P mv obj key v c p = Some (st, j, p') \<and> length p' \<le> length p \<and> st \<noteq> absent_value"
proof (induction "length p" arbitrary: p obj key v c rule: less_induct)
  case less
  obtain st k' p1 where P: "P key p c = Some (st, k', p1)" "length p1 \<le> length p"
      "st = success \<longrightarrow> length p1 < length p"
    using assms unfolding good_def by blast
  obtain st2 v' p2 where P2: "P v p1 COLON = Some (st2, v', p2)" "length p2 \<le> length p1"
    using assms unfolding good_def by blast
  show ?case
  proof (cases "st = success \<and> getType k' = String \<and> st2 = success")
    case True
    then obtain ks where ks: "k' = JString ks" by (cases k') auto
    obtain obj' ins where e: "map_emplace ks v' obj = (obj', ins)" by force
    from True P P2 have "length p2 < length p" by simp
    from less[OF this, of obj' JNull "if ins \<or> mv then JNull else v'" "KEY OR COMMA OR OBJECT"] P P2 True ks e
    show ?thesis
      by (subst object_loop.simps) auto
  next
    case False
    then show ?thesis using P P2 by (subst object_loop.simps) (auto split: Json.splits)
  qed
qed

lemma array_loop_ok: "good P \<Longrightarrow> length p < n \<Longrightarrow> res_ok n (array_loop P arr v c p)"
  using array_loop_good[of P arr v c p] by (auto simp: res_ok_def)

lemma object_loop_ok: "good P \<Longrightarrow> length p < n \<Longrightarrow> res_ok n (object_loop P mv obj k v c p)"
  using object_loop_good[of P mv obj k v c p] by (auto simp: res_ok_def)

lemma string_case_ok:
  "length p < n \<Longrightarrow> res_ok n (case string_loop [] p of (status, b, p') \<Rightarrow>
                 Some (status, if status = success then JString b else json, p'))"
  using string_loop_props[of "[]" p] by (auto simp: res_ok_def split: prod.split)

lemma parse_loop_good:
  assumes "good P"
  shows "length p \<le> length a \<Longrightarrow> res_ok (length a) (parse_loop P s2d mv depth json a d ctx p)"
proof (induction p arbitrary: json a d ctx)
  case Nil
  then show ?case by (simp add: res_ok_def)
next
  case (Cons ch p)
  have lt: "length p < length a" using Cons.prems by simp
  have H1: "res_ok (length a) (parse_loop P s2d mv depth j p d' c' p)" for j d' c'
    using Cons.IH[of p j d' c'] lt by (auto intro: res_ok_mono)
  have H2: "res_ok (length a) (parse_loop P s2d mv depth j a d' c' p)" for j d' c'
    using Cons.IH[of a j d' c'] lt by auto
  have H3: "length p - k < length a" for k
    using lt by simp
  show ?case
    by (simp add: res_ok_if H1 H2 H3 res_ok_strict lt parse_zero_ok parse_digits_ok
         array_loop_ok[OF assms] object_loop_ok[OF assms] string_case_ok cong: if_cong)
qed

lemma parse_good:
  "good (parse s2d mv n :: ('f, 'd) Json \<Rightarrow> string \<Rightarrow> int \<Rightarrow> ('f, 'd) parse_result option)"
proof (induction n)
  case 0
  show ?case by (simp add: good_def)
next
  case (Suc n)
  have "res_ok (length p) (parse s2d mv (Suc n) json p ctx)" for json :: "('f, 'd) Json" and p ctx
    using parse_loop_good[OF Suc, of p p] by simp
  then show ?case unfolding good_def res_ok_def by blast
qed

subsection \<open>When the recursive parser returns \<open>absent_value\<close>\<close>

lemma all_ws_simps:
  "all_ws [] = True"
  "all_ws (c # s) = (is_space c \<and> all_ws s)"
  by (simp_all add: all_ws_def)

lemma is_absent_simps:
  "is_absent (if c then x else y) = (if c then is_absent x else is_absent y)"
  "is_absent (Some (st, j, p)) = (st = absent_value)"
  "is_absent (Some (if c then u else w)) = (if c then is_absent (Some u) else is_absent (Some w))"
  by (simp_all add: is_absent_def)

lemma ReturnColonCommaKeyErrorStatus_not_absent [simp]:
  "ReturnColonCommaKeyErrorStatus c \<noteq> absent_value"
  "ReturnColonCommaErrorStatus c \<noteq> absent_value"
  by (simp_all add: ReturnColonCommaKeyErrorStatus_def ReturnColonCommaErrorStatus_def)

lemma use_double_not_absent: "\<not> is_absent (Some (use_double s2d a p))"
  by (simp add: use_double_def is_absent_def split: prod.split)

lemma parse_zero_not_absent: "\<not> is_absent (Some (parse_zero s2d json a p))"
  unfolding parse_zero_def
  by (simp add: is_absent_simps use_double_not_absent cong: if_cong)

lemma parse_digits_not_absent: "\<not> is_absent (Some (parse_digits s2d json a d c p))"
  unfolding parse_digits_def
  by (cases "int_loop (of_int ((c - 0x30) * d)) d p")
     (simp_all add: is_absent_simps use_double_not_absent)

lemma array_loop_not_absent: "good P \<Longrightarrow> \<not> is_absent (array_loop P arr v c p)"
  using array_loop_good[of P arr v c p] by (auto simp: is_absent_def)

lemma object_loop_not_absent: "good P \<Longrightarrow> \<not> is_absent (object_loop P mv obj k v c p)"
  using object_loop_good[of P mv obj k v c p] by (auto simp: is_absent_def)

lemma string_case_not_absent:
  "\<not> is_absent (case string_loop [] p of (status, b, p') \<Rightarrow>
                 Some (status, if status = success then JString b else json, p'))"
  using string_loop_props[of "[]" p] by (auto simp: is_absent_def split: prod.split)

lemma digit_not_ws: "p \<noteq> [] \<Longrightarrow> isdigit (byte_at p 0) \<Longrightarrow> \<not> all_ws p"
  by (cases p) (auto simp: all_ws_simps is_space_def isdigit_def byte_at_def)

lemma parse_loop_absent_iff:
  assumes "good P"
  shows "is_absent (parse_loop P s2d mv depth json a d 0 p) = (depth = DEPTH \<and> all_ws p)"
proof (induction p arbitrary: json a d)
  case Nil
  then show ?case by (simp add: is_absent_def all_ws_simps)
next
  case (Cons ch p)
  show ?case
    by (simp add: is_absent_simps Cons parse_zero_not_absent parse_digits_not_absent
         array_loop_not_absent[OF assms] object_loop_not_absent[OF assms] string_case_not_absent
         all_ws_simps is_space_def digit_not_ws cong: if_cong)
qed

lemma parse_absent_iff:
  "is_absent (parse s2d mv DEPTH json p 0) = all_ws p"
proof -
  have D: "DEPTH = Suc 19" by (simp add: DEPTH_def)
  have "is_absent (parse_loop (parse s2d mv 19) s2d mv (Suc 19) json p 1 0 p)
          = (Suc 19 = DEPTH \<and> all_ws p)"
    by (rule parse_loop_absent_iff[OF parse_good])
  then show ?thesis
    unfolding D parse.simps by simp
qed

lemma parse_DEPTH_Some:
  fixes json :: "('f, 'd) Json"
  obtains st j p' where "parse s2d mv DEPTH json p ctx = Some (st, j, p')"
  using parse_good[of s2d mv DEPTH] unfolding good_def by blast


subsection \<open>Nested arrays and the depth limit\<close>

lemma parse_open:
  "ctx AND (COLON OR COMMA OR KEY) = 0 \<Longrightarrow>
   parse s2d mv (Suc d) json (CHR ''['' # p) ctx = array_loop (parse s2d mv d) [] JNull ARRAY p"
  by simp

lemma parse_close:
  "parse s2d mv (Suc d) json (CHR '']'' # p) (ARRAY OR COMMA) = Some (absent_value, json, p)"
  "parse s2d mv (Suc d) json (CHR '']'' # p) ARRAY = Some (absent_value, json, p)"
  by (simp_all add: ctx_defs)

lemma parse_nested:
  fixes json :: "('f, 'd) Json"
  assumes "ctx AND (COLON OR COMMA OR KEY) = 0"
  shows "parse s2d mv d json (replicate (Suc n) (CHR ''['') @ replicate (Suc n) (CHR '']'') @ rest) ctx =
     (if d = 0 then Some (depth_exceeded, json, replicate (Suc n) (CHR ''['') @ replicate (Suc n) (CHR '']'') @ rest)
      else if d \<le> Suc n then Some (depth_exceeded, JArray [], drop d (replicate (Suc n) (CHR ''['') @ replicate (Suc n) (CHR '']'') @ rest))
      else Some (success, nested_arrays n, rest))"
  using assms
proof (induction n arbitrary: d json rest ctx)
  case 0
  show ?case
  proof (cases d)
    case 0
    then show ?thesis by simp
  next
    case (Suc d')
    show ?thesis
    proof (cases d')
      case 0
      with Suc 0 "0.prems" show ?thesis
        by (simp add: parse_open del: parse.simps) (simp add: array_loop.simps)
    next
      case (Suc d'')
      with \<open>d = Suc d'\<close> "0.prems" show ?thesis
        by (simp add: parse_open del: parse.simps)
           (simp add: array_loop.simps parse_close del: parse.simps)
    qed
  qed
next
  case (Suc m)
  let ?inner = "replicate (Suc m) (CHR ''['') @ replicate (Suc m) (CHR '']'') @ (CHR '']'' # rest)"
  have split: "replicate (Suc (Suc m)) (CHR ''['') @ replicate (Suc (Suc m)) (CHR '']'') @ rest
      = CHR ''['' # ?inner"
    by (simp add: replicate_append_same)
  have A: "ARRAY AND (COLON OR COMMA OR KEY) = 0" by (simp add: ctx_defs)
  note IH = Suc.IH[OF A, where rest = "CHR '']'' # rest" and json = "JNull :: ('f, 'd) Json" ]
  show ?case
  proof (cases d)
    case 0
    then show ?thesis by simp
  next
    case (Suc d')
    have "parse s2d mv d json (CHR ''['' # ?inner) ctx = array_loop (parse s2d mv d') [] JNull ARRAY ?inner"
      unfolding Suc using Suc.prems by (rule parse_open)
    also have "\<dots> = (if d' = 0 then Some (depth_exceeded, JArray [], ?inner)
      else if d' \<le> Suc m then Some (depth_exceeded, JArray [], drop d' ?inner)
      else Some (success, nested_arrays (Suc m), rest))"
    proof (cases "d' = 0 \<or> d' \<le> Suc m")
      case True
      then show ?thesis
        by (subst array_loop.simps) (auto simp add: IH simp del: parse.simps replicate.simps)
    next
      case False
      then obtain d'' where d'': "d' = Suc d''" by (cases d') auto
      from False show ?thesis
        apply (subst array_loop.simps)
        apply (simp add: IH  del: parse.simps replicate.simps)
        apply (subst array_loop.simps)
        apply (simp add: d'' parse_close del: parse.simps replicate.simps)
        done
    qed
    finally show ?thesis
      unfolding split using Suc by (auto simp del: replicate.simps parse.simps)
  qed
qed

lemma parse_loop_all_ws:
  "all_ws p \<Longrightarrow> parse_loop P s2d mv DEPTH json a d ctx p = Some (absent_value, json, [])"
  by (induction p arbitrary: a) (auto simp: all_ws_simps is_space_def)

lemma parse_all_ws:
  "all_ws p \<Longrightarrow> parse s2d mv DEPTH json p ctx = Some (absent_value, json, [])"
proof -
  assume ws: "all_ws p"
  have D: "DEPTH = Suc 19" by (simp add: DEPTH_def)
  have "parse_loop (parse s2d mv 19) s2d mv DEPTH json p 1 ctx p = Some (absent_value, json, [])"
    using ws by (rule parse_loop_all_ws)
  then show ?thesis
    by (simp only: D parse.simps)
qed

subsection \<open>The claims about the public \<open>parse\<close>\<close>

text \<open>
  The public parse returns on every input (the model's \<open>None\<close> does not occur).
\<close>

lemma parse_public_total:
  "\<exists>st j. (parse_public s2d mv s :: (JsonStatus \<times> ('f, 'd) Json) option) = Some (st, j)"
proof -
  obtain st p and j :: "('f, 'd) Json" where 1: "parse s2d mv DEPTH JNull s 0 = Some (st, j, p)"
    by (rule parse_DEPTH_Some)
  obtain st2 p2 and j2 :: "('f, 'd) Json"
    where 2: "parse s2d mv DEPTH JNull p 0 = Some (st2, j2, p2)"
    by (rule parse_DEPTH_Some)
  show ?thesis using 1 2 by (simp add: parse_public_def)
qed

text \<open>
  C2. For every input the public parse returns, and its status is \<open>success\<close> if and only
  if the first recursive parse (context 0, depth \<open>DEPTH\<close>) succeeds and leaves nothing but
  whitespace behind its cursor. When the first parse succeeds and something other than
  whitespace follows, the status is \<open>trailing_content\<close>: the second parse from the cursor
  returns \<open>absent_value\<close> exactly on whitespace-only input, and every other result is
  remapped. The value returned is the one of the first parse.
\<close>

theorem C2_success_iff_whole_input_consumed:
  fixes j :: "('f, 'd) Json"
  shows "(\<exists>st j'. (parse_public s2d mv s :: (JsonStatus \<times> ('f, 'd) Json) option) = Some (st, j'))
   \<and> (parse_public s2d mv s = Some (success, j) \<longleftrightarrow>
        (\<exists>p. parse s2d mv DEPTH JNull s 0 = Some (success, j, p) \<and> all_ws p))
   \<and> (\<forall>p. parse s2d mv DEPTH JNull s 0 = Some (success, j, p) \<and> \<not> all_ws p \<longrightarrow>
        parse_public s2d mv s = Some (trailing_content, j))"
proof -
  obtain st p and j1 :: "('f, 'd) Json"
    where 1: "parse s2d mv DEPTH JNull s 0 = Some (st, j1, p)"
    by (rule parse_DEPTH_Some)
  obtain st2 p2 and j2 :: "('f, 'd) Json"
    where 2: "parse s2d mv DEPTH JNull p 0 = Some (st2, j2, p2)"
    by (rule parse_DEPTH_Some)
  have "all_ws p \<longleftrightarrow> st2 = absent_value"
    using parse_absent_iff[of s2d mv "JNull :: ('f, 'd) Json" p] 2 by (simp add: is_absent_def)
  then show ?thesis using 1 2 by (auto simp add: parse_public_def)
qed

text \<open>
  Witness for C2: on \<open>[] []\<close> the first parse succeeds with the cursor before \<open> []\<close>,
  which is not whitespace only, and the public status is \<open>trailing_content\<close>; on \<open>[] \<close>
  only a space is left and the public status is \<open>success\<close>.
\<close>

theorem C2_witness:
  "parse (\<lambda>a. ((), 0)) True DEPTH JNull ''[] []'' 0 = Some (success, JArray [] :: (unit, unit) Json, '' []'')
   \<and> \<not> all_ws '' []''
   \<and> parse_public (\<lambda>a. ((), 0)) True ''[] []'' = Some (trailing_content, JArray [] :: (unit, unit) Json)
   \<and> parse (\<lambda>a. ((), 0)) True DEPTH JNull ''[] '' 0 = Some (success, JArray [] :: (unit, unit) Json, '' '')
   \<and> all_ws '' ''
   \<and> parse_public (\<lambda>a. ((), 0)) True ''[] '' = Some (success, JArray [] :: (unit, unit) Json)"
proof -
  have a: "parse (\<lambda>a. ((), 0)) True DEPTH JNull ''[] []'' 0
            = Some (success, JArray [] :: (unit, unit) Json, '' []'')"
    by (simp add: parse_ev)
  have b: "\<not> all_ws '' []''"
    by (simp add: all_ws_def is_space_def)
  have c: "parse (\<lambda>a. ((), 0)) True DEPTH JNull ''[] '' 0
            = Some (success, JArray [] :: (unit, unit) Json, '' '')"
    by (simp add: parse_ev)
  have d: "all_ws '' ''"
    by (simp add: all_ws_def is_space_def)
  from C2_success_iff_whole_input_consumed
         [of "\<lambda>a. ((), 0)" True "''[] []''" "JArray [] :: (unit, unit) Json"] a b
  have e: "parse_public (\<lambda>a. ((), 0)) True ''[] []''
            = Some (trailing_content, JArray [] :: (unit, unit) Json)"
    by blast
  from C2_success_iff_whole_input_consumed
         [of "\<lambda>a. ((), 0)" True "''[] ''" "JArray [] :: (unit, unit) Json"] c d
  have f: "parse_public (\<lambda>a. ((), 0)) True ''[] ''
            = Some (success, JArray [] :: (unit, unit) Json)"
    by blast
  from a b c d e f show ?thesis by blast
qed

text \<open>
  C3, as stated, fails: on the empty input the public parse returns \<open>absent_value\<close>. The
  status of the first recursive parse is remapped only when it is \<open>success\<close>.
\<close>

theorem C3_counterexample:
  "parse_public (\<lambda>a. ((), 0)) True [] = Some (absent_value, JNull :: (unit, unit) Json)"
  by (simp add: parse_ev)

text \<open>
  C3, as amended. The public parse returns \<open>absent_value\<close> exactly on the inputs that
  hold nothing but whitespace (the empty input is one), and the value is then Null; on
  every other input the status differs from \<open>absent_value\<close>.
\<close>

theorem C3_absent_value_iff_whitespace_only:
  fixes j :: "('f, 'd) Json"
  shows "parse_public s2d mv s = Some (absent_value, j) \<longleftrightarrow> all_ws s \<and> j = JNull"
proof (cases "all_ws s")
  case True
  then show ?thesis
    by (auto simp add: parse_public_def parse_all_ws)
next
  case False
  obtain st p and j1 :: "('f, 'd) Json"
    where 1: "parse s2d mv DEPTH JNull s 0 = Some (st, j1, p)"
    by (rule parse_DEPTH_Some)
  obtain st2 p2 and j2 :: "('f, 'd) Json"
    where 2: "parse s2d mv DEPTH JNull p 0 = Some (st2, j2, p2)"
    by (rule parse_DEPTH_Some)
  have "st \<noteq> absent_value"
    using parse_absent_iff[of s2d mv "JNull :: ('f, 'd) Json" s] 1 False
    by (simp add: is_absent_def)
  then show ?thesis using 1 2 False by (auto simp add: parse_public_def)
qed

text \<open>Witness for C3: two spaces.\<close>

theorem C3_witness:
  "all_ws ''  '' \<and> parse_public (\<lambda>a. ((), 0)) True ''  '' = Some (absent_value, JNull :: (unit, unit) Json)"
proof -
  have a: "all_ws ''  ''"
    by (simp add: all_ws_def is_space_def)
  with C3_absent_value_iff_whitespace_only
         [of "\<lambda>a. ((), 0)" True "''  ''" "JNull :: (unit, unit) Json"]
  show ?thesis by blast
qed

text \<open>
  C4, as stated, fails: twenty nested arrays are rejected with \<open>depth_exceeded\<close>. The
  recursive call for the content of the twentieth array is entered with depth 0.
\<close>

theorem C4_counterexample:
  "parse_public (\<lambda>a. ((), 0)) True ''[[[[[[[[[[[[[[[[[[[[]]]]]]]]]]]]]]]]]]]]''
     = Some (depth_exceeded, JArray [] :: (unit, unit) Json)"
  by (simp add: parse_ev)

text \<open>
  C4, as amended. \<open>DEPTH\<close> is 20, and an input of \<open>n + 1\<close> nested arrays parses
  successfully when \<open>n + 1 < 20\<close>, that is up to nineteen, and returns \<open>depth_exceeded\<close>
  from twenty on.
\<close>

theorem C4_nineteen_parse_twenty_exceed:
  "DEPTH = 20 \<and>
   (parse_public s2d mv (nested_input (Suc n)) :: (JsonStatus \<times> ('f, 'd) Json) option)
     = (if Suc n < DEPTH then Some (success, nested_arrays n)
        else Some (depth_exceeded, JArray []))"
proof -
  have D: "DEPTH = 20" by (simp add: DEPTH_def)
  have D0: "DEPTH \<noteq> 0" by (simp add: DEPTH_def)
  have "0 AND (COLON OR COMMA OR KEY) = (0 :: int)" by simp
  from parse_nested[OF this, of s2d mv DEPTH "JNull :: ('f, 'd) Json" n "[]"]
  have "(parse_public s2d mv (nested_input (Suc n)) :: (JsonStatus \<times> ('f, 'd) Json) option)
     = (if Suc n < DEPTH then Some (success, nested_arrays n)
        else Some (depth_exceeded, JArray []))"
    using D0
    by (auto simp add: parse_public_def nested_input_def parse_all_ws all_ws_simps
          simp del: replicate.simps parse.simps)
  with D show ?thesis by blast
qed


text \<open>Witness for C4: nineteen nested arrays parse, twenty do not.\<close>

theorem C4_witness:
  "parse_public (\<lambda>a. ((), 0)) True (nested_input 19)
      = Some (success, nested_arrays 18 :: (unit, unit) Json)
   \<and> parse_public (\<lambda>a. ((), 0)) True (nested_input 20)
      = Some (depth_exceeded, JArray [] :: (unit, unit) Json)"
proof -
  have "parse_public (\<lambda>a. ((), 0)) True (nested_input (Suc 18))
      = (if Suc 18 < DEPTH then Some (success, nested_arrays 18 :: (unit, unit) Json)
         else Some (depth_exceeded, JArray []))"
    using C4_nineteen_parse_twenty_exceed[of "\<lambda>a. ((), 0)" True 18] by blast
  moreover have "parse_public (\<lambda>a. ((), 0)) True (nested_input (Suc 19))
      = (if Suc 19 < DEPTH then Some (success, nested_arrays 19 :: (unit, unit) Json)
         else Some (depth_exceeded, JArray []))"
    using C4_nineteen_parse_twenty_exceed[of "\<lambda>a. ((), 0)" True 19] by blast
  ultimately show ?thesis by (simp add: DEPTH_def)
qed


subsection \<open>The observers\<close>

text \<open>
  C9, as stated, fails: \<^verbatim>\<open>getFloat\<close> called on a value of kind Double does not abort. It
  returns the double narrowed to float (here the double +0.0, bit pattern 0, whose
  narrowing is the float +0.0).
\<close>

theorem C9_counterexample:
  "getFloat (\<lambda>d. 0) (JDouble (0 :: 64 word) :: (32 word, 64 word) Json) = Some 0
   \<and> getType (JDouble (0 :: 64 word) :: (32 word, 64 word) Json) \<noteq> Float"
  by (simp add: getFloat_def)

text \<open>
  C9, as amended. \<^verbatim>\<open>getBool\<close>, \<^verbatim>\<open>getLong\<close>, \<^verbatim>\<open>getString\<close>, \<^verbatim>\<open>getArray\<close> and \<^verbatim>\<open>getObject\<close>
  abort exactly when the kind of the value is not theirs, and return the stored payload
  when it is. \<^verbatim>\<open>getFloat\<close> and \<^verbatim>\<open>getDouble\<close> abort exactly when the kind is neither Float nor
  Double; on their own kind they return the stored payload, on the other one the stored
  number converted to their result type.
\<close>

theorem C9_observers:
  fixes json :: "('f, 'd) Json"
  shows
   "(getBool json = None \<longleftrightarrow> getType json \<noteq> Bool) \<and> getBool (JBool b) = Some b
  \<and> (getLong json = None \<longleftrightarrow> getType json \<noteq> Long) \<and> getLong (JLong x) = Some x
  \<and> (getString json = None \<longleftrightarrow> getType json \<noteq> String) \<and> getString (JString s) = Some s
  \<and> (getArray json = None \<longleftrightarrow> getType json \<noteq> Array) \<and> getArray (JArray xs) = Some xs
  \<and> (getObject json = None \<longleftrightarrow> getType json \<noteq> Object) \<and> getObject (JObject m) = Some m
  \<and> (getFloat narrow json = None \<longleftrightarrow> getType json \<noteq> Float \<and> getType json \<noteq> Double)
  \<and> getFloat narrow (JFloat f) = Some f \<and> getFloat narrow (JDouble d) = Some (narrow d)
  \<and> (getDouble widen json = None \<longleftrightarrow> getType json \<noteq> Float \<and> getType json \<noteq> Double)
  \<and> getDouble widen (JDouble d) = Some d \<and> getDouble widen (JFloat f) = Some (widen f)"
  by (cases json) (simp_all add: getBool_def getLong_def getString_def getArray_def getObject_def
        getFloat_def getDouble_def)

subsection \<open>Moved-from objects\<close>

lemma Free_null [simp]: "Free h c 0 = Inr h"
  by (simp add: Free_def)

lemma Free_live: "(c, p) \<in> h \<Longrightarrow> p \<noteq> 0 \<Longrightarrow> Free h c p = Inr (h - {(c, p)})"
  by (simp add: Free_def)

text \<open>Destroying an object that owns its blocks frees exactly those blocks.\<close>

lemma destroy_blocks:
  fixes x :: "('f, 'd) Json_obj" and xs :: "('f, 'd) Json_obj list"
    and m :: "(string \<times> ('f, 'd) Json_obj) list"
  shows "distinct (blocks x) \<Longrightarrow> set (blocks x) \<subseteq> h \<Longrightarrow>
           clear h x = Inr (h - set (blocks x),
             Json_obj (self x) (ctx_ref x) PNull
               (if kind (held x) = String then null_view else string_view x))"
    and "distinct (blocks x) \<Longrightarrow> set (blocks x) \<subseteq> h \<Longrightarrow> destroy h x = Inr (h - set (blocks x))"
    and "distinct (blocks_vector xs) \<Longrightarrow> set (blocks_vector xs) \<subseteq> h \<Longrightarrow>
           destroy_vector h xs = Inr (h - set (blocks_vector xs))"
    and "distinct (blocks_map m) \<Longrightarrow> set (blocks_map m) \<subseteq> h \<Longrightarrow>
           destroy_map h m = Inr (h - set (blocks_map m))"
proof (induction h x and h x and h xs and h m rule: clear_destroy_destroy_vector_destroy_map.induct)
  case (1 h a c v sv)
  show ?case
  proof (cases v)
    case (PString s)
    with 1(3,4) show ?thesis by (auto simp: Free_live)
  next
    case (PArray xs)
    with 1(1)[OF PArray] 1(3,4) show ?thesis by simp
  next
    case (PObject m)
    with 1(2)[OF PObject] 1(3,4) show ?thesis by simp
  qed simp_all
next
  case (2 h a c v sv)
  show ?case
  proof (cases "owns_payload (kind v)")
    case True
    from 2(1)[OF True 2(2,3)] True show ?thesis by simp
  next
    case False
    then have "blocks (Json_obj a c v sv) = []"
      by (cases v) (simp_all add: owns_payload_def)
    with False show ?thesis by simp
  qed
next
  case (3 h)
  show ?case by simp
next
  case (4 h x xs)
  from 4(3,4) have d: "distinct (blocks x)" "set (blocks x) \<subseteq> h" by simp_all
  from 4(1)[OF d] have dx: "destroy h x = Inr (h - set (blocks x))" .
  from 4(3,4) have "distinct (blocks_vector xs)" "set (blocks_vector xs) \<subseteq> h - set (blocks x)"
    by auto
  from 4(2)[OF dx this] dx show ?case by (auto simp: Diff_eq)
next
  case (5 h)
  show ?case by simp
next
  case (6 h k x m)
  from 6(3,4) have d: "distinct (blocks x)" "set (blocks x) \<subseteq> h" by simp_all
  from 6(1)[OF d] have dx: "destroy h x = Inr (h - set (blocks x))" .
  from 6(3,4) have "distinct (blocks_map m)" "set (blocks_map m) \<subseteq> h - set (blocks x)"
    by auto
  from 6(2)[OF dx this] dx show ?case by (auto simp: Diff_eq)
qed

text \<open>The first step of the move assignment: \<^verbatim>\<open>if (type_ >= JsonType::String) clear();\<close>\<close>

lemma clear_first:
  assumes "owns h this"
  obtains this1 where
    "(if owns_payload (kind (held this)) then clear h this else Inr (h, this))
       = Inr (h - set (blocks this), this1)"
    "ctx_ref this1 = ctx_ref this" "self this1 = self this" "string_view this1 = null_view"
proof (cases "owns_payload (kind (held this))")
  case True
  from assms have "distinct (blocks this)" "set (blocks this) \<subseteq> h" by (simp_all add: owns_def)
  from destroy_blocks(1)[OF this] True assms show ?thesis
    by (intro that[of "Json_obj (self this) (ctx_ref this) PNull
          (if kind (held this) = String then null_view else string_view this)"])
       (auto simp: owns_def)
next
  case False
  then have "blocks this = []"
    by (cases this; cases "held this") (simp_all add: owns_payload_def)
  with False assms show ?thesis
    by (intro that[of this]) (auto simp: owns_def owns_payload_def)
qed

lemma destroy_Null: "kind (held x) = Null \<Longrightarrow> destroy h x = Inr h"
  by (cases x) (simp add: owns_payload_def)

lemma blocks_held:
  "kind v \<noteq> String \<Longrightarrow> blocks (Json_obj a c v sv) = blocks (Json_obj a' c' v sv')"
  by (cases v) simp_all

lemma move_construct_source:
  assumes ob: "owns h other" and mc: "move_construct a other = (new, other')"
  shows "kind (held other') = Null \<and> string_view other' = null_view
    \<and> destroy h other' = Inr h \<and> held new = held other
    \<and> destroy h new = Inr (h - set (blocks other))
    \<and> destroy (h - set (blocks other)) other' = Inr (h - set (blocks other))"
proof -
  obtain ao co vo svo where o: "other = Json_obj ao co vo svo" by (cases other)
  have r: "kind (held other') = Null \<and> string_view other' = null_view
      \<and> held new = held other \<and> blocks new = blocks other"
  proof (cases "kind vo = String")
    case True
    then obtain s where s: "vo = PString s" by (cases vo) auto
    with mc o show ?thesis by (auto simp add: move_construct_def)
  next
    case False
    with ob o have "svo = null_view" by (simp add: owns_def)
    with False mc o show ?thesis
      by (cases vo) (auto simp add: move_construct_def)
  qed
  then have d: "destroy h' other' = Inr h'" for h' by (simp add: destroy_Null)
  from ob r have "distinct (blocks new)" "set (blocks new) \<subseteq> h" by (simp_all add: owns_def)
  from destroy_blocks(2)[OF this] r have "destroy h new = Inr (h - set (blocks other))" by simp
  with d r show ?thesis by simp
qed

lemma move_assign_source:
  assumes tb: "owns h this" and ob: "owns h other"
    and sep: "set (blocks this) \<inter> set (blocks other) = {}"
    and ne: "self this \<noteq> self other" and nin: "self other \<notin> set (elements this)"
  shows "\<exists>h' this' other'. move_assign alloc h this other = Inr (h', this', other')
     \<and> kind (held other') = Null \<and> string_view other' = null_view
     \<and> destroy h' other' = Inr h' \<and> held this' = held other
     \<and> (\<exists>h''. destroy h' this' = Inr h'' \<and> destroy h'' other' = Inr h'')"
proof -
  obtain ao co vo svo where o: "other = Json_obj ao co vo svo" by (cases other)
  from clear_first[OF tb] obtain this1 where
    c1: "(if owns_payload (kind (held this)) then clear h this else Inr (h, this))
           = Inr (h - set (blocks this), this1)"
      and t1: "ctx_ref this1 = ctx_ref this" "self this1 = self this"
        "string_view this1 = null_view"
    by blast
  let ?h1 = "h - set (blocks this)"
  from ob sep have sub: "set (blocks other) \<subseteq> ?h1" and dis: "distinct (blocks other)"
    by (auto simp: owns_def)
  have fin: "kind (held other') = Null \<and> string_view other' = null_view
     \<and> destroy h' other' = Inr h' \<and> held this' = held other
     \<and> (\<exists>h''. destroy h' this' = Inr h'' \<and> destroy h'' other' = Inr h'')"
    if "kind (held other') = Null" "string_view other' = null_view" "held this' = held other"
      "distinct (blocks this')" "set (blocks this') \<subseteq> h'"
    for h' this' other'
    using that destroy_blocks(2)[of this' h'] by (simp add: destroy_Null)
  show ?thesis
  proof (cases "kind vo = String")
    case False
    with ob o have sv: "svo = null_view" by (simp add: owns_def)
    let ?this' = "Json_obj (self this1) (ctx_ref this1) vo (string_view this1)"
    let ?other' = "Json_obj ao co PNull svo"
    from False have ma: "move_assign alloc h this other = Inr (?h1, ?this', ?other')"
      using ne nin c1 o by (cases vo) (simp_all add: move_assign_def)
    have b: "blocks ?this' = blocks other"
      unfolding o using False by (rule blocks_held)
    from fin[of ?other' ?this' ?h1] sv b sub dis o ma show ?thesis
      by auto
  next
    case True
    then obtain s where s: "vo = PString s" by (cases vo) auto
    show ?thesis
    proof (cases "co = ctx_ref this1")
      case True
      let ?this' = "Json_obj (self this1) (ctx_ref this1) (PString s) svo"
      let ?other' = "Json_obj ao co PNull null_view"
      have ma: "move_assign alloc h this other = Inr (?h1, ?this', ?other')"
        using ne nin c1 o s True by (simp add: move_assign_def)
      have b: "blocks ?this' = blocks other"
        unfolding o s using True by simp
      from fin[of ?other' ?this' ?h1] b sub dis o s ma show ?thesis
        by auto
    next
      case False
      obtain h2 p where m: "Malloc alloc ?h1 (ctx_ref this1) (len svo) = (h2, p)" by force
      then have h2: "?h1 \<subseteq> h2" "p = 0 \<or> (ctx_ref this1, p) \<in> h2"
        by (auto simp: Malloc_def split: if_splits)
      from sub o s h2 have live: "str svo = 0 \<or> (co, str svo) \<in> h2" by auto
      let ?h3 = "if str svo = 0 then h2 else h2 - {(co, str svo)}"
      from live have fr: "Free h2 co (str svo) = Inr ?h3"
        by (auto simp: Free_live)
      let ?this' = "Json_obj (self this1) (ctx_ref this1) (PString s) \<lparr>str = p, len = len svo\<rparr>"
      let ?other' = "Json_obj ao co PNull null_view"
      have ma: "move_assign alloc h this other = Inr (?h3, ?this', ?other')"
        using ne nin c1 o s False m fr by (simp add: move_assign_def)
      have b: "distinct (blocks ?this')" "set (blocks ?this') \<subseteq> ?h3"
        using h2 False by auto
      from fin[of ?other' ?this' ?h3] b o s ma show ?thesis
        by auto
    qed
  qed
qed

lemma move_assign_inside:
  assumes tb: "owns h this" and ne: "self this \<noteq> self other"
    and el: "self other \<in> set (elements this)"
  shows "move_assign alloc h this other = Inl UseAfterFree"
proof -
  from clear_first[OF tb] obtain this1 where
    "(if owns_payload (kind (held this)) then clear h this else Inr (h, this))
           = Inr (h - set (blocks this), this1)"
    by blast
  with ne el show ?thesis by (simp add: move_assign_def)
qed

text \<open>
  C10. Take a destination \<open>this\<close> and a source \<open>other\<close> that each own their blocks, those of
  the objects stored inside them included.
  \<^item> After move construction from \<open>other\<close> the source has kind Null and a null
    \<^verbatim>\<open>StringView\<close>; destroying it frees nothing; the new object holds the payload, and
    destroying it frees exactly the blocks the source owned, after which destroying the
    source still frees nothing.
  \<^item> After move assignment from \<open>other\<close> to a distinct \<open>this\<close>, when the two hold no block in
    common and neither is stored inside the other, the assignment ends without error,
    the source has kind Null and a null \<^verbatim>\<open>StringView\<close>, destroying it frees nothing, the
    destination holds the payload, and destroying the destination and then the source
    frees no block twice.
  \<^item> When the source is stored inside the destination (\<^verbatim>\<open>a = std::move(a[0])\<close>), the source
    is distinct from the destination, and the move assignment destroys it before
    reading it: a use after free.
\<close>

theorem C10_moved_from_is_null:
  assumes "owns h this"
  shows "(owns h other \<longrightarrow>
          (\<forall>new other'. move_construct a other = (new, other') \<longrightarrow>
            kind (held other') = Null \<and> string_view other' = null_view
            \<and> destroy h other' = Inr h \<and> held new = held other
            \<and> destroy h new = Inr (h - set (blocks other))
            \<and> destroy (h - set (blocks other)) other' = Inr (h - set (blocks other))))
       \<and> (owns h other \<and> set (blocks this) \<inter> set (blocks other) = {}
            \<and> self this \<noteq> self other \<and> self other \<notin> set (elements this)
            \<and> self this \<notin> set (elements other) \<longrightarrow>
            (\<exists>h' this' other'. move_assign alloc h this other = Inr (h', this', other')
               \<and> kind (held other') = Null \<and> string_view other' = null_view
               \<and> destroy h' other' = Inr h' \<and> held this' = held other
               \<and> (\<exists>h''. destroy h' this' = Inr h'' \<and> destroy h'' other' = Inr h'')))
       \<and> (self this \<noteq> self other \<and> self other \<in> set (elements this) \<longrightarrow>
            move_assign alloc h this other = Inl UseAfterFree)"
proof -
  have A: "owns h other \<longrightarrow>
          (\<forall>new other'. move_construct a other = (new, other') \<longrightarrow>
            kind (held other') = Null \<and> string_view other' = null_view
            \<and> destroy h other' = Inr h \<and> held new = held other
            \<and> destroy h new = Inr (h - set (blocks other))
            \<and> destroy (h - set (blocks other)) other' = Inr (h - set (blocks other)))"
    using move_construct_source[of h other a] by blast
  have B: "owns h other \<and> set (blocks this) \<inter> set (blocks other) = {}
            \<and> self this \<noteq> self other \<and> self other \<notin> set (elements this)
            \<and> self this \<notin> set (elements other) \<longrightarrow>
            (\<exists>h' this' other'. move_assign alloc h this other = Inr (h', this', other')
               \<and> kind (held other') = Null \<and> string_view other' = null_view
               \<and> destroy h' other' = Inr h' \<and> held this' = held other
               \<and> (\<exists>h''. destroy h' this' = Inr h'' \<and> destroy h'' other' = Inr h''))"
    using move_assign_source[OF assms, of other alloc] by blast
  have C: "self this \<noteq> self other \<and> self other \<in> set (elements this) \<longrightarrow>
            move_assign alloc h this other = Inl UseAfterFree"
    using move_assign_inside[OF assms, of other alloc] by blast
  from A B C show ?thesis by blast
qed


text \<open>
  Witness for C10: a String source in context 1 owning block 100, and a destination in
  context 2 holding an array of a String that owns block 101 and a Long. Move construction
  hands block 100 to the new object. Move assignment across the two contexts frees block
  101 with the array, allocates block 200 for the destination and frees block 100. In
  both cases the source is left Null with a null view, and destroying it leaves the heap
  as it is. Move assignment from the first element of the array to the array is a use
  after free.
\<close>

theorem C10_witness:
  "owns {(1, 100), (1, 101), (1, 102)}
     (Json_obj 20 2 (PArray [Json_obj 21 1 (PString ''x'') \<lparr>str = 101, len = 2\<rparr>,
                             Json_obj 22 1 (PLong 5) null_view]) null_view :: (unit, unit) Json_obj)
   \<and> owns {(1, 100), (1, 101), (1, 102)}
     (Json_obj 10 1 (PString ''abc'') \<lparr>str = 100, len = 4\<rparr> :: (unit, unit) Json_obj)
   \<and> set (blocks (Json_obj 20 2 (PArray [Json_obj 21 1 (PString ''x'') \<lparr>str = 101, len = 2\<rparr>,
                             Json_obj 22 1 (PLong 5) null_view]) null_view :: (unit, unit) Json_obj))
       \<inter> set (blocks (Json_obj 10 1 (PString ''abc'') \<lparr>str = 100, len = 4\<rparr>
                          :: (unit, unit) Json_obj)) = {}
   \<and> elements (Json_obj 20 2 (PArray [Json_obj 21 1 (PString ''x'') \<lparr>str = 101, len = 2\<rparr>,
                             Json_obj 22 1 (PLong 5) null_view]) null_view :: (unit, unit) Json_obj)
       = [21, 22]
   \<and> move_construct 30 (Json_obj 10 1 (PString ''abc'') \<lparr>str = 100, len = 4\<rparr> :: (unit, unit) Json_obj)
       = (Json_obj 30 1 (PString ''abc'') \<lparr>str = 100, len = 4\<rparr>, Json_obj 10 1 PNull null_view)
   \<and> destroy {(1, 100), (1, 101), (1, 102)} (Json_obj 10 1 PNull null_view :: (unit, unit) Json_obj)
       = Inr {(1, 100), (1, 101), (1, 102)}
   \<and> destroy {(1, 100), (1, 101), (1, 102)}
        (Json_obj 30 1 (PString ''abc'') \<lparr>str = 100, len = 4\<rparr> :: (unit, unit) Json_obj)
       = Inr {(1, 101), (1, 102)}
   \<and> move_assign (\<lambda>h c. 200) {(1, 100), (1, 101), (1, 102)}
        (Json_obj 20 2 (PArray [Json_obj 21 1 (PString ''x'') \<lparr>str = 101, len = 2\<rparr>,
                                Json_obj 22 1 (PLong 5) null_view]) null_view :: (unit, unit) Json_obj)
        (Json_obj 10 1 (PString ''abc'') \<lparr>str = 100, len = 4\<rparr>)
       = Inr ({(1, 102), (2, 200)},
              Json_obj 20 2 (PString ''abc'') \<lparr>str = 200, len = 4\<rparr>,
              Json_obj 10 1 PNull null_view)
   \<and> destroy {(1, 102), (2, 200)}
        (Json_obj 20 2 (PString ''abc'') \<lparr>str = 200, len = 4\<rparr> :: (unit, unit) Json_obj)
       = Inr {(1, 102)}
   \<and> move_assign (\<lambda>h c. 200) {(1, 100), (1, 101), (1, 102)}
        (Json_obj 20 2 (PArray [Json_obj 21 1 (PString ''x'') \<lparr>str = 101, len = 2\<rparr>,
                                Json_obj 22 1 (PLong 5) null_view]) null_view :: (unit, unit) Json_obj)
        (Json_obj 21 1 (PString ''x'') \<lparr>str = 101, len = 2\<rparr>)
       = Inl UseAfterFree"
proof -
  let ?h = "{(1 :: nat, 100 :: nat), (1, 101), (1, 102)}"
  let ?elem = "Json_obj 21 1 (PString ''x'') \<lparr>str = 101, len = 2\<rparr> :: (unit, unit) Json_obj"
  let ?dst = "Json_obj 20 2 (PArray [?elem, Json_obj 22 1 (PLong 5) null_view]) null_view
                :: (unit, unit) Json_obj"
  let ?src = "Json_obj 10 1 (PString ''abc'') \<lparr>str = 100, len = 4\<rparr> :: (unit, unit) Json_obj"
  have a: "owns ?h ?dst" by (simp add: owns_def)
  have b: "owns ?h ?src" by (simp add: owns_def)
  have c: "set (blocks ?dst) \<inter> set (blocks ?src) = {}" by simp
  have d: "self ?dst \<noteq> self ?src" "self ?src \<notin> set (elements ?dst)"
    "self ?dst \<notin> set (elements ?src)" "self ?dst \<noteq> self ?elem" "self ?elem \<in> set (elements ?dst)"
    by simp_all
  have mc: "move_construct 30 ?src
       = (Json_obj 30 1 (PString ''abc'') \<lparr>str = 100, len = 4\<rparr>, Json_obj 10 1 PNull null_view)"
    by (simp add: move_construct_def)
  have ma: "move_assign (\<lambda>h c. 200) ?h ?dst ?src
       = Inr ({(1, 102), (2, 200)},
              Json_obj 20 2 (PString ''abc'') \<lparr>str = 200, len = 4\<rparr>,
              Json_obj 10 1 PNull null_view)"
    by (auto simp add: move_assign_def owns_payload_def Malloc_def Free_def)
  have de: "destroy {(1, 102), (2, 200)}
        (Json_obj 20 2 (PString ''abc'') \<lparr>str = 200, len = 4\<rparr> :: (unit, unit) Json_obj)
       = Inr {(1, 102)}"
    by (auto simp add: owns_payload_def Free_def)
  note T = C10_moved_from_is_null[OF a, of ?src 30 "\<lambda>h c. 200"]
  note U = C10_moved_from_is_null[OF a, of ?elem 30 "\<lambda>h c. 200"]
  from T b mc have e: "destroy ?h (Json_obj 10 1 PNull null_view :: (unit, unit) Json_obj) = Inr ?h
     \<and> destroy ?h (Json_obj 30 1 (PString ''abc'') \<lparr>str = 100, len = 4\<rparr> :: (unit, unit) Json_obj)
          = Inr (?h - set (blocks ?src))"
    by blast
  then have e': "destroy ?h (Json_obj 10 1 PNull null_view :: (unit, unit) Json_obj) = Inr ?h
     \<and> destroy ?h (Json_obj 30 1 (PString ''abc'') \<lparr>str = 100, len = 4\<rparr> :: (unit, unit) Json_obj)
          = Inr {(1, 101), (1, 102)}"
    by (simp add: insert_Diff_if)
  from U d have f: "move_assign (\<lambda>h c. 200) ?h ?dst ?elem = Inl UseAfterFree"
    by blast
  have el: "elements ?dst = [21, 22]" by simp
  from a b c el mc e' ma de f show ?thesis by blast
qed


subsection \<open>CESU-8 pairs in a string\<close>

text \<open>
  C8: what the code does on a CESU-8 pair. For the bytes \<open>ED AE 80 ED B0 80\<close> between
  quotes, the iteration that reads \<open>ED\<close> appends the four bytes \<open>F0 90 80 80\<close> but moves
  the cursor on by 0 bytes, so the next iteration reads \<open>AE\<close> and the parse fails with
  \<open>illegal_utf8_character\<close>. For \<open>ED A0 80 ED B0 80\<close> (U+10000 as a CESU-8 pair) the pair
  test, which asks for a first continuation byte of at least \<open>AE\<close>, is not met and the
  parse fails with \<open>utf16_surrogate_in_utf8\<close>.
\<close>

theorem C8_cesu8_pair_is_rejected:
  "parse_public s2d mv [CHR 0x22, CHR 0xED, CHR 0xAE, CHR 0x80, CHR 0xED, CHR 0xB0, CHR 0x80, CHR 0x22]
     = Some (illegal_utf8_character, JNull)
   \<and> parse_public s2d mv [CHR 0x22, CHR 0xED, CHR 0xA0, CHR 0x80, CHR 0xED, CHR 0xB0, CHR 0x80, CHR 0x22]
     = Some (utf16_surrogate_in_utf8, JNull)
   \<and> string_step 0xED [CHR 0xAE, CHR 0x80, CHR 0xED, CHR 0xB0, CHR 0x80, CHR 0x22]
     = Append [CHR 0xF0, CHR 0x90, CHR 0x80, CHR 0x80] 0"
  by (simp add: parse_ev str_ev)


subsection \<open>Repeated keys in an object\<close>

lemma sorted_keys_simps [simp]:
  "sorted_keys []"
  "sorted_keys ((k, v) # m) \<longleftrightarrow> (\<forall>k' \<in> fst ` set m. k < k') \<and> sorted_keys m"
  by (auto simp: sorted_keys_def)

lemma keys_map_emplace:
  "fst ` set (fst (map_emplace k v m)) = insert k (fst ` set m)"
proof (induction m)
  case Nil
  show ?case by simp
next
  case (Cons x m)
  obtain k' v' where x: "x = (k', v')" by force
  obtain m' ins where e: "map_emplace k v m = (m', ins)" by force
  from Cons e have "fst ` set m' = insert k (fst ` set m)" by simp
  with x e show ?case by auto
qed

lemma sorted_map_emplace:
  "sorted_keys m \<Longrightarrow> sorted_keys (fst (map_emplace k v m))"
proof (induction m)
  case Nil
  then show ?case by simp
next
  case (Cons x m)
  obtain k' v' where x: "x = (k', v')" by force
  obtain m' ins where e: "map_emplace k v m = (m', ins)" by force
  have keys: "fst ` set m' = insert k (fst ` set m)"
    using keys_map_emplace[of k v m] e by simp
  from Cons x e keys show ?case
    by (auto simp: not_less)
qed

lemma map_of_unsorted_None:
  fixes m :: "(string \<times> 'v) list"
  shows "\<forall>k' \<in> fst ` set m. k < k' \<Longrightarrow> map_of m k = None"
  by (induction m) (auto split: if_splits)

lemma map_of_map_emplace:
  "sorted_keys m \<Longrightarrow>
   map_of (fst (map_emplace k v m)) x =
     (if x = k then (case map_of m k of None \<Rightarrow> Some v | Some v0 \<Rightarrow> Some v0) else map_of m x)"
proof (induction m)
  case Nil
  then show ?case by simp
next
  case (Cons y m)
  obtain k' v' where y: "y = (k', v')" by force
  obtain m' ins where e: "map_emplace k v m = (m', ins)" by force
  from Cons.prems y have s: "sorted_keys m" and lt: "\<forall>k'' \<in> fst ` set m. k' < k''" by auto
  show ?case
  proof (cases "k < k'")
    case True
    then have "\<forall>k'' \<in> fst ` set m. k < k''" using lt by auto
    then have "map_of m k = None" by (rule map_of_unsorted_None)
    with True y show ?thesis by auto
  next
    case False
    with Cons.IH[OF s] y e show ?thesis by auto
  qed
qed

lemma inserted_iff:
  "sorted_keys m \<Longrightarrow> snd (map_emplace k v m) \<longleftrightarrow> k \<notin> fst ` set m"
proof (induction m)
  case Nil
  then show ?case by simp
next
  case (Cons y m)
  obtain k' v' where y: "y = (k', v')" by force
  obtain m' ins where e: "map_emplace k v m = (m', ins)" by force
  from Cons y e show ?case by (auto split: prod.splits)
qed

text \<open>The bindings of an object under construction survive the rest of the loop.\<close>

lemma object_loop_keeps:
  assumes "good P"
  shows "sorted_keys obj \<Longrightarrow>
    \<exists>st obj' p'. object_loop P mv obj key v c p = Some (st, JObject obj', p')
      \<and> sorted_keys obj' \<and> (\<forall>k \<in> fst ` set obj. map_of obj' k = map_of obj k)"
proof (induction "length p" arbitrary: p obj key v c rule: less_induct)
  case less
  obtain st k' p1 where P: "P key p c = Some (st, k', p1)" "length p1 \<le> length p"
      "st = success \<longrightarrow> length p1 < length p"
    using assms unfolding good_def by blast
  obtain st2 v' p2 where P2: "P v p1 COLON = Some (st2, v', p2)" "length p2 \<le> length p1"
    using assms unfolding good_def by blast
  show ?case
  proof (cases "st = success \<and> getType k' = String \<and> st2 = success")
    case True
    then obtain ks where ks: "k' = JString ks" by (cases k') auto
    obtain obj1 ins where e: "map_emplace ks v' obj = (obj1, ins)" by force
    have s1: "sorted_keys obj1"
      using sorted_map_emplace[OF less.prems, of ks v'] e by simp
    have keep1: "\<forall>k \<in> fst ` set obj. map_of obj1 k = map_of obj k"
      using map_of_map_emplace[OF less.prems, of ks v'] e
      by (auto simp: map_of_eq_None_iff split: option.splits)
    have keys1: "fst ` set obj \<subseteq> fst ` set obj1"
      using keys_map_emplace[of ks v' obj] e by auto
    from True P P2 have "length p2 < length p" by simp
    from less.hyps[OF this s1, of JNull "if ins \<or> mv then JNull else v'" "KEY OR COMMA OR OBJECT"]
    obtain st3 obj' p' where r: "object_loop P mv obj1 JNull (if ins \<or> mv then JNull else v')
          (KEY OR COMMA OR OBJECT) p2 = Some (st3, JObject obj', p')"
        "sorted_keys obj'" "\<forall>k \<in> fst ` set obj1. map_of obj' k = map_of obj1 k"
      by blast
    have "object_loop P mv obj key v c p = Some (st3, JObject obj', p')"
      using P P2 True ks e r(1) by (subst object_loop.simps) simp
    moreover have "\<forall>k \<in> fst ` set obj. map_of obj' k = map_of obj k"
    proof
      fix k assume k: "k \<in> fst ` set obj"
      with keys1 have "k \<in> fst ` set obj1" by blast
      with r(3) have "map_of obj' k = map_of obj1 k" by blast
      moreover from keep1 k have "map_of obj1 k = map_of obj k" by blast
      ultimately show "map_of obj' k = map_of obj k" by simp
    qed
    ultimately show ?thesis using r(2) by blast
  next
    case False
    have "\<exists>st3 p'. object_loop P mv obj key v c p = Some (st3, JObject obj, p')"
      using False P P2 by (subst object_loop.simps) (auto split: Json.splits)
    then show ?thesis using less.prems by auto
  qed
qed


text \<open>
  Apart from \<open>null\<close>, which leaves the variable it is parsed into as it is, a successful
  parse overwrites that variable: its result does not depend on what the variable held.
\<close>

lemma same_value_if:
  "same_value (if c then x else y) (if c then x' else y')
     = (if c then same_value x x' else same_value y y')"
  by simp

lemma same_value_refl [simp]: "same_value r r"
  by (simp add: same_value_def)

lemma same_value_Some:
  "same_value (Some (st, v0, q)) (Some (st', v, q'))
     = (st = success \<and> v0 \<noteq> JNull \<longrightarrow> st' = success \<and> v = v0 \<and> q' = q)"
  by (auto simp: same_value_def)

lemma same_value_Some_if:
  "same_value (Some (if c then x else y)) (Some (if c then x' else y'))
     = (if c then same_value (Some x) (Some x') else same_value (Some y) (Some y'))"
  by simp

lemma same_parse_zero:
  "same_value (Some (parse_zero s2d JNull a p)) (Some (parse_zero s2d json a p))"
  by (simp add: parse_zero_def same_value_Some same_value_Some_if cong: if_cong)

lemma same_parse_digits:
  "same_value (Some (parse_digits s2d JNull a d c p)) (Some (parse_digits s2d json a d c p))"
  by (simp add: parse_digits_def same_value_Some split: int_outcome.split)

lemma same_string_case:
  "same_value (case string_loop [] p of (status, b, p') \<Rightarrow>
                 Some (status, if status = success then JString b else JNull, p'))
              (case string_loop [] p of (status, b, p') \<Rightarrow>
                 Some (status, if status = success then JString b else json, p'))"
  by (simp add: same_value_Some split: prod.split)

lemma parse_loop_same:
  "same_value (parse_loop P s2d mv depth JNull a d ctx p)
              (parse_loop P s2d mv depth json a d ctx p)"
proof (induction p arbitrary: a d ctx)
  case Nil
  show ?case by (simp add: same_value_Some)
next
  case (Cons ch p)
  show ?case
    by (simp add: Cons same_value_if same_value_Some same_value_Some_if same_parse_zero
          same_parse_digits same_string_case cong: if_cong)
qed

lemma parse_same:
  "parse s2d mv n JNull p c = Some (success, v, p') \<Longrightarrow> v \<noteq> JNull \<Longrightarrow>
   parse s2d mv n json p c = Some (success, v, p')"
proof (cases n)
  case 0
  then show "parse s2d mv n JNull p c = Some (success, v, p') \<Longrightarrow> ?thesis" by simp
next
  case (Suc m)
  assume "parse s2d mv n JNull p c = Some (success, v, p')" "v \<noteq> JNull"
  with parse_loop_same[of "parse s2d mv m" s2d mv "Suc m" p 1 c p json] Suc
  show ?thesis by (simp add: same_value_def)
qed

text \<open>
  The object loop against first-writer-wins insertion of the members of the text. The
  variable \<^verbatim>\<open>value\<close> is declared outside the loop; \<open>var\<close> is what it holds when an iteration
  starts.
\<close>

lemma first_wins_sorted: "sorted_keys obj \<Longrightarrow> sorted_keys (first_wins obj ms)"
  by (induction ms arbitrary: obj) (auto simp: sorted_map_emplace)

lemma first_wins_map_of:
  "sorted_keys obj \<Longrightarrow>
   map_of (first_wins obj ms) x = (case map_of obj x of None \<Rightarrow> map_of ms x | Some v0 \<Rightarrow> Some v0)"
proof (induction ms arbitrary: obj)
  case Nil
  show ?case by (simp split: option.split)
next
  case (Cons m ms)
  obtain k v where m: "m = (k, v)" by force
  have s: "sorted_keys (fst (map_emplace k v obj))"
    using Cons.prems by (rule sorted_map_emplace)
  show ?case
    unfolding m first_wins.simps Cons.IH[OF s] map_of_map_emplace[OF Cons.prems]
    by (simp split: option.split)
qed

lemma clean_seen:
  "set seen = set seen' \<Longrightarrow> clean seen w ms = clean seen' w ms"
proof (induction ms arbitrary: seen seen' w)
  case Nil
  show ?case by simp
next
  case (Cons m ms)
  obtain k v where m: "m = (k, v)" by force
  from Cons.prems have s: "set (k # seen) = set (k # seen')" by simp
  from Cons.prems have i: "k \<in> set seen \<longleftrightarrow> k \<in> set seen'" by simp
  show ?case
    unfolding m clean.simps i
    using Cons.IH[OF s, of "if k \<in> set seen' then v else JNull"] by simp
qed

lemma object_loop_reads:
  fixes P :: "('f, 'd) Json \<Rightarrow> string \<Rightarrow> int \<Rightarrow> ('f, 'd) parse_result option"
  assumes fresh: "\<And>json p c v p'. P JNull p c = Some (success, v, p') \<Longrightarrow> v \<noteq> JNull
                    \<Longrightarrow> P json p c = Some (success, v, p')"
  shows "reads P ctx p ms p' \<Longrightarrow> sorted_keys obj
     \<Longrightarrow> (if mv then var = JNull else clean (map fst obj) var ms)
     \<Longrightarrow> object_loop P mv obj JNull var ctx p = Some (success, JObject (first_wins obj ms), p')"
proof (induction ms arbitrary: obj var ctx p)
  case Nil
  then obtain j where "P JNull p ctx = Some (absent_value, j, p')"
    by (auto split: option.splits)
  then show ?case by (subst object_loop.simps) simp
next
  case (Cons m ms)
  obtain k v where m: "m = (k, v)" by force
  from Cons.prems(1) have rd: "reads P ctx p ((k, v) # ms) p'" unfolding m .
  then obtain st key p1 where r0: "P JNull p ctx = Some (st, key, p1)"
    by (cases "P JNull p ctx") auto
  with rd have r1: "st = success" "key = JString k" by simp_all
  from rd r0 r1 obtain st2 v' p2 where r2: "P JNull p1 COLON = Some (st2, v', p2)"
    by (cases "P JNull p1 COLON") auto
  with rd r0 r1 have r3: "st2 = success" "v' = v" "reads P (KEY OR COMMA OR OBJECT) p2 ms p'"
    by simp_all
  from r0 r1 r2 r3 have
    r: "P JNull p ctx = Some (success, JString k, p1)"
       "P JNull p1 COLON = Some (success, v, p2)"
       "reads P (KEY OR COMMA OR OBJECT) p2 ms p'"
    by simp_all
  have val: "P var p1 COLON = Some (success, v, p2)"
  proof (cases "var = JNull")
    case True
    with r(2) show ?thesis by simp
  next
    case False
    with Cons.prems(3) have "v \<noteq> JNull" unfolding m by (auto split: if_splits)
    with r(2) show ?thesis by (rule fresh)
  qed
  obtain obj1 ins where e: "map_emplace k v obj = (obj1, ins)" by force
  have s1: "sorted_keys obj1"
    using sorted_map_emplace[OF Cons.prems(2), of k v] e by simp
  have ins: "ins \<longleftrightarrow> k \<notin> set (map fst obj)"
    using inserted_iff[OF Cons.prems(2), of k v] e by simp
  have keys: "set (map fst obj1) = set (k # map fst obj)"
    using keys_map_emplace[of k v obj] e by simp
  have inv: "if mv then (if ins \<or> mv then JNull else v) = JNull
             else clean (map fst obj1) (if ins \<or> mv then JNull else v) ms"
  proof (cases mv)
    case True
    then show ?thesis by simp
  next
    case False
    with Cons.prems(3) have "clean (k # map fst obj) (if k \<in> set (map fst obj) then v else JNull) ms"
      unfolding m by simp
    then have "clean (map fst obj1) (if k \<in> set (map fst obj) then v else JNull) ms"
      by (simp only: clean_seen[OF keys])
    with False ins show ?thesis by (cases ins) simp_all
  qed
  from Cons.IH[OF r(3) s1 inv]
  have "object_loop P mv obj1 JNull (if ins \<or> mv then JNull else v) (KEY OR COMMA OR OBJECT) p2
          = Some (success, JObject (first_wins obj1 ms), p')" .
  then show ?case
    unfolding m using r(1) val e by (subst object_loop.simps) simp
qed

text \<open>
  C6, as stated, fails: on \<open>{"a":1,"a":2}\<close> the object maps \<open>a\<close> to 1, the value of the
  first occurrence, whether or not \<^verbatim>\<open>emplace\<close> moves from a rejected value;
  \<^verbatim>\<open>std::map::emplace\<close> does not replace an entry. On \<open>{"a":1,"a":2,"b":null,"b":3}\<close> the
  key \<open>b\<close> is not bound to 3 either: it is bound to \<open>null\<close> when \<^verbatim>\<open>emplace\<close> moves from the
  rejected value, and to 2, the value left in the variable \<^verbatim>\<open>value\<close> by the rejected member
  before, when it does not.
\<close>

theorem C6_counterexample:
  \<open>parse_public sample_s2d True ''{"a":1,"a":2}''
     = Some (success, JObject [(''a'', JLong 1)] :: (unit, string) Json)
   \<and> parse_public sample_s2d False ''{"a":1,"a":2}''
     = Some (success, JObject [(''a'', JLong 1)] :: (unit, string) Json)
   \<and> parse_public sample_s2d False ''{"a":1,"a":2,"b":null,"b":3}''
     = Some (success, JObject [(''a'', JLong 1), (''b'', JLong 2)] :: (unit, string) Json)
   \<and> parse_public sample_s2d True ''{"a":1,"a":2,"b":null,"b":3}''
     = Some (success, JObject [(''a'', JLong 1), (''b'', JNull)] :: (unit, string) Json)\<close>
  by (simp add: parse_ev str_ev)

text \<open>
  C6, as amended: the first occurrence of a key wins, and the object is in key order.
  Let the text behind an opening brace consist of the members \<open>ms\<close>, each key and value as
  a parse into a fresh variable gives them, and of the closing brace (\<open>reads\<close>). Let
  \<^verbatim>\<open>emplace\<close> move from a rejected value (\<open>mv\<close>), or let no member with the value \<open>null\<close>
  directly follow a member that repeats an earlier key with a value other than \<open>null\<close>
  (\<open>clean\<close>). Then the parse of the object succeeds with the cursor behind the closing
  brace, the entries of the object are in strictly increasing key order, and the object
  binds every key to the value of its first occurrence among the members: as a map it is
  \<open>map_of ms\<close>, which looks a key up from the front of the list.
\<close>

theorem C6_first_occurrence_wins:
  fixes json :: "('f, 'd) Json"
  assumes "reads (parse s2d mv n) (KEY OR OBJECT) p ms p'"
    and "mv \<or> clean [] (JNull :: ('f, 'd) Json) ms"
    and "ctx AND (COLON OR COMMA OR KEY) = 0"
  shows "parse s2d mv (Suc n) json (CHR ''{'' # p) ctx
           = Some (success, JObject (first_wins [] ms), p')
     \<and> sorted_keys (first_wins [] ms)
     \<and> map_of (first_wins [] ms) = map_of ms"
proof -
  have inv: "if mv then (JNull :: ('f, 'd) Json) = JNull
             else clean (map fst ([] :: (string \<times> ('f, 'd) Json) list)) (JNull :: ('f, 'd) Json) ms"
    using assms(2) by auto
  have "object_loop (parse s2d mv n) mv [] JNull JNull (KEY OR OBJECT) p
          = Some (success, JObject (first_wins [] ms), p')"
    by (rule object_loop_reads[OF parse_same assms(1) _ inv]) simp_all
  then have A: "parse s2d mv (Suc n) json (CHR ''{'' # p) ctx
           = Some (success, JObject (first_wins [] ms), p')"
    using assms(3) by simp
  have B: "sorted_keys (first_wins [] ms)"
    by (rule first_wins_sorted) simp
  have C: "map_of (first_wins [] ms) = map_of ms"
    by (rule ext) (simp add: first_wins_map_of)
  from A B C show ?thesis by blast
qed


text \<open>
  Witness for C6. Without the move, \<open>{"b":1,"a":2,"b":null}\<close> is clean and gives
  \<open>a\<close> = 2, \<open>b\<close> = 1. With the move, \<open>{"a":1,"a":2,"b":null}\<close> gives \<open>a\<close> = 1, \<open>b\<close> = null.
\<close>

theorem C6_witness:
  \<open>reads (parse sample_s2d False 19) (KEY OR OBJECT) ''"b":1,"a":2,"b":null}''
      [(''b'', JLong 1), (''a'', JLong 2), (''b'', JNull :: (unit, string) Json)] []
   \<and> clean [] (JNull :: (unit, string) Json) [(''b'', JLong 1), (''a'', JLong 2), (''b'', JNull)]
   \<and> parse sample_s2d False (Suc 19) (JNull :: (unit, string) Json) ''{"b":1,"a":2,"b":null}'' 0
        = Some (success, JObject [(''a'', JLong 2), (''b'', JLong 1)], [])
   \<and> map_of (first_wins [] [(''b'', JLong 1), (''a'', JLong 2), (''b'', JNull :: (unit, string) Json)])
        ''b'' = Some (JLong 1)
   \<and> reads (parse sample_s2d True 19) (KEY OR OBJECT) ''"a":1,"a":2,"b":null}''
      [(''a'', JLong 1), (''a'', JLong 2), (''b'', JNull :: (unit, string) Json)] []
   \<and> parse sample_s2d True (Suc 19) (JNull :: (unit, string) Json) ''{"a":1,"a":2,"b":null}'' 0
        = Some (success, JObject [(''a'', JLong 1), (''b'', JNull)], [])
   \<and> map_of (first_wins [] [(''a'', JLong 1), (''a'', JLong 2), (''b'', JNull :: (unit, string) Json)])
        ''a'' = Some (JLong 1)\<close>
proof -
  have r1: \<open>reads (parse sample_s2d False 19) (KEY OR OBJECT) ''"b":1,"a":2,"b":null}''
      [(''b'', JLong 1), (''a'', JLong 2), (''b'', JNull :: (unit, string) Json)] []\<close>
    by (simp add: parse_ev str_ev)
  have c1: "False \<or> clean [] (JNull :: (unit, string) Json)
      [(''b'', JLong 1), (''a'', JLong 2), (''b'', JNull)]"
    by simp
  have r2: \<open>reads (parse sample_s2d True 19) (KEY OR OBJECT) ''"a":1,"a":2,"b":null}''
      [(''a'', JLong 1), (''a'', JLong 2), (''b'', JNull :: (unit, string) Json)] []\<close>
    by (simp add: parse_ev str_ev)
  have c2: "True \<or> clean [] (JNull :: (unit, string) Json)
      [(''a'', JLong 1), (''a'', JLong 2), (''b'', JNull)]"
    by simp
  have z: "0 AND (COLON OR COMMA OR KEY) = (0 :: int)" by simp
  have f1: "first_wins [] [(''b'', JLong 1), (''a'', JLong 2), (''b'', JNull :: (unit, string) Json)]
      = [(''a'', JLong 2), (''b'', JLong 1)]"
    by simp
  have f2: "first_wins [] [(''a'', JLong 1), (''a'', JLong 2), (''b'', JNull :: (unit, string) Json)]
      = [(''a'', JLong 1), (''b'', JNull)]"
    by simp
  note T1 = C6_first_occurrence_wins[OF r1 c1 z, where json = "JNull :: (unit, string) Json"]
  note T2 = C6_first_occurrence_wins[OF r2 c2 z, where json = "JNull :: (unit, string) Json"]
  from T1 have A1: \<open>parse sample_s2d False (Suc 19) (JNull :: (unit, string) Json)
        ''{"b":1,"a":2,"b":null}'' 0 = Some (success, JObject [(''a'', JLong 2), (''b'', JLong 1)], [])
      \<and> map_of (first_wins [] [(''b'', JLong 1), (''a'', JLong 2), (''b'', JNull :: (unit, string) Json)])
        ''b'' = Some (JLong 1)\<close>
    unfolding f1 by (simp del: parse.simps)
  from T2 have A2: \<open>parse sample_s2d True (Suc 19) (JNull :: (unit, string) Json)
        ''{"a":1,"a":2,"b":null}'' 0 = Some (success, JObject [(''a'', JLong 1), (''b'', JNull)], [])
      \<and> map_of (first_wins [] [(''a'', JLong 1), (''a'', JLong 2), (''b'', JNull :: (unit, string) Json)])
        ''a'' = Some (JLong 1)\<close>
    unfolding f2 by (simp del: parse.simps)
  from r1 c1 r2 A1 A2 show ?thesis by blast
qed


subsection \<open>Integer literals\<close>

lemma sint_of_int_fits: "fits_int64 i \<Longrightarrow> sint (of_int i :: 64 word) = i"
  by (simp add: fits_int64_def sint_sbintrunc' signed_take_bit_int_eq_self)

lemma fits_sint: "fits_int64 (sint (x :: 64 word))"
  using sint_ge[of x] sint_lt[of x] by (simp add: fits_int64_def)

lemma ckd_mul_of_int:
  "fits_int64 i \<Longrightarrow> ckd_mul (of_int i) 10 = (\<not> fits_int64 (i * 10), of_int (i * 10))"
  by (simp add: ckd_mul_def sint_of_int_fits)

lemma ckd_add_of_int:
  "fits_int64 i \<Longrightarrow> fits_int64 j \<Longrightarrow>
   ckd_add (of_int i) (of_int j) = (\<not> fits_int64 (i + j), of_int (i + j))"
  by (simp add: ckd_add_def sint_of_int_fits)

lemma fold_digits_Cons:
  "fold_digits d acc (ch # ds) = fold_digits d (acc * 10 + (of_char ch - 0x30) * d) ds"
  by (simp add: fold_digits_def)

lemma fold_digits_Nil [simp]: "fold_digits d acc [] = acc"
  by (simp add: fold_digits_def)

text \<open>The magnitude only grows along the fold.\<close>

lemma fold_digits_grows:
  assumes "d = 1 \<or> d = - 1" and "list_all digit_char ds" and "0 \<le> acc * d"
  shows "acc * d \<le> fold_digits d acc ds * d"
  using assms(2,3)
proof (induction ds arbitrary: acc)
  case Nil
  then show ?case by simp
next
  case (Cons ch ds)
  let ?acc' = "acc * 10 + (of_char ch - 0x30) * d"
  from Cons.prems have dg: "0 \<le> (of_char ch :: int) - 0x30"
    by (simp add: digit_char_def isdigit_def)
  have dd: "d * d = 1" using assms(1) by auto
  have "?acc' * d = acc * d * 10 + (of_char ch - 0x30) * (d * d)"
    by (simp add: algebra_simps)
  with dd dg Cons.prems have ge: "acc * d \<le> ?acc' * d" by simp
  with Cons.prems have "0 \<le> ?acc' * d" by simp
  with Cons.IH[of ?acc'] Cons.prems have "?acc' * d \<le> fold_digits d ?acc' ds * d" by simp
  with ge show ?case by (simp add: fold_digits_Cons)
qed

lemma fits_smaller:
  assumes "d = 1 \<or> d = - 1" "0 \<le> a * d" "a * d \<le> b * d" "fits_int64 b"
  shows "fits_int64 a"
  using assms by (auto simp: fits_int64_def)

lemma fold_digits_decimal_aux:
  "fold_digits d (d * a) ds = d * foldl (\<lambda>acc ch. acc * 10 + (of_char ch - 0x30)) a ds"
proof (induction ds arbitrary: a)
  case Nil
  show ?case by simp
next
  case (Cons ch ds)
  have "d * a * 10 + (of_char ch - 0x30) * d = d * (a * 10 + (of_char ch - 0x30))"
    by (simp add: algebra_simps)
  with Cons[of "a * 10 + (of_char ch - 0x30)"] show ?case
    by (simp add: fold_digits_Cons)
qed

lemma fold_digits_decimal: "fold_digits d 0 ds = d * decimal ds"
  using fold_digits_decimal_aux[of d 0 ds] by (simp add: decimal_def)

lemma int_loop_digit_step:
  assumes "digit_char ch"
  shows "int_loop x d (ch # p) =
     (case ckd_mul x 10 of (ov1, x1) \<Rightarrow>
           if ov1 then UseDouble (ch # p)
           else (case ckd_add x1 (of_int ((of_char ch - 0x30) * d)) of (ov2, x2) \<Rightarrow>
                   if ov2 then UseDouble (ch # p) else int_loop x2 d p))"
  using assms by (simp add: digit_char_def Let_def)

lemma int_loop_digits:
  assumes d: "d = 1 \<or> d = - 1"
  shows "list_all digit_char ds \<Longrightarrow> 0 \<le> acc * d \<Longrightarrow> fits_int64 acc \<Longrightarrow>
     (fits_int64 (fold_digits d acc ds) \<longrightarrow>
        int_loop (of_int acc) d (ds @ rest) = int_loop (of_int (fold_digits d acc ds)) d rest)
   \<and> (\<not> fits_int64 (fold_digits d acc ds) \<longrightarrow>
        (\<exists>p'. int_loop (of_int acc) d (ds @ rest) = UseDouble p'))"
proof (induction ds arbitrary: acc)
  case Nil
  then show ?case by simp
next
  case (Cons ch ds)
  let ?dig = "(of_char ch :: int) - 0x30"
  let ?acc' = "acc * 10 + ?dig * d"
  from Cons.prems have dc: "digit_char ch" and dsd: "list_all digit_char ds" by simp_all
  from dc have dg: "0 \<le> ?dig" "?dig \<le> 9"
    by (simp_all add: digit_char_def isdigit_def)
  have dd: "d * d = 1" using d by auto
  have e1: "acc * 10 * d = acc * d * 10" by simp
  have e2: "?acc' * d = acc * d * 10 + ?dig * (d * d)" by (simp add: algebra_simps)
  have nn10: "0 \<le> acc * 10 * d" using Cons.prems(2) e1 by simp
  have le1: "acc * 10 * d \<le> ?acc' * d" using e1 e2 dd dg by simp
  have nn': "0 \<le> ?acc' * d" using nn10 le1 by simp
  have fd: "fits_int64 (?dig * d)" using d dg by (auto simp: fits_int64_def)
  have m: "ckd_mul (of_int acc) 10 = (\<not> fits_int64 (acc * 10), of_int (acc * 10))"
    using Cons.prems(3) by (rule ckd_mul_of_int)
  have a: "fits_int64 (acc * 10) \<Longrightarrow>
      ckd_add (of_int (acc * 10)) (of_int (?dig * d)) = (\<not> fits_int64 ?acc', of_int ?acc')"
    using fd by (simp only: ckd_add_of_int)
  have step: "int_loop (of_int acc) d ((ch # ds) @ rest) =
      (if \<not> fits_int64 (acc * 10) then UseDouble (ch # ds @ rest)
       else if \<not> fits_int64 ?acc' then UseDouble (ch # ds @ rest)
       else int_loop (of_int ?acc') d (ds @ rest))"
  proof (cases "fits_int64 (acc * 10)")
    case True
    show ?thesis
      apply (simp only: append_Cons int_loop_digit_step[OF dc] m prod.case True simp_thms if_False)
      apply (simp only: a[OF True] prod.case)
      done
  next
    case False
    show ?thesis
      by (simp only: append_Cons int_loop_digit_step[OF dc] m prod.case False simp_thms if_True)
  qed
  show ?case
  proof (cases "fits_int64 ?acc'")
    case True
    from fits_smaller[OF d nn10 le1 True] have f10: "fits_int64 (acc * 10)" .
    from Cons.IH[OF dsd nn' True] step f10 True show ?thesis
      by (simp add: fold_digits_Cons del: int_loop.simps)
  next
    case False
    have "\<not> fits_int64 (fold_digits d ?acc' ds)"
    proof
      assume f: "fits_int64 (fold_digits d ?acc' ds)"
      from fold_digits_grows[OF d dsd nn'] have "?acc' * d \<le> fold_digits d ?acc' ds * d" .
      from fits_smaller[OF d nn' this f] False show False by simp
    qed
    with step False show ?thesis
      by (auto simp add: fold_digits_Cons simp del: int_loop.simps)
  qed
qed

text \<open>What ends the digits: the end of the input or a byte that is not a digit.\<close>

lemma int_loop_rest:
  assumes "rest = [] \<or> \<not> digit_char (hd rest)"
  shows "int_loop y d rest =
     (if rest = [] then IntDone y []
      else if hd rest = CHR ''.'' then
        (if tl rest = [] \<or> \<not> isdigit (byte_at (tl rest) 0) then BadDouble rest else UseDouble rest)
      else if hd rest = CHR ''e'' \<or> hd rest = CHR ''E'' then UseDouble rest
      else IntDone y rest)"
  using assms by (cases rest) (auto simp: digit_char_def Let_def)

lemma digit19_neq:
  assumes "0x31 \<le> (of_char c :: int)" "(of_char c :: int) \<le> 0x39"
  shows "c \<noteq> CHR '' ''" "c \<noteq> CHR 0x0A" "c \<noteq> CHR 0x0D" "c \<noteq> CHR 0x09" "c \<noteq> CHR '',''"
    "c \<noteq> CHR '':''" "c \<noteq> CHR ''n''" "c \<noteq> CHR ''f''" "c \<noteq> CHR ''t''" "c \<noteq> CHR ''-''"
    "c \<noteq> CHR ''0''"
  using assms by auto

lemma parse_loop_digit19:
  assumes "ctx AND (COLON OR COMMA OR KEY) = 0"
    and "0x31 \<le> (of_char c :: int)" "(of_char c :: int) \<le> 0x39"
  shows "parse_loop P s2d mv depth json a d ctx (c # p)
           = Some (parse_digits s2d json a d (of_char c) p)"
  using assms by (simp add: digit19_neq)

lemma parse_loop_minus:
  assumes "ctx AND (COLON OR COMMA OR KEY) = 0"
    and "0x31 \<le> (of_char c :: int)" "(of_char c :: int) \<le> 0x39"
  shows "parse_loop P s2d mv depth json a d ctx (CHR ''-'' # c # p)
           = Some (parse_digits s2d json a (- 1) (of_char c) p)"
  using assms by (simp add: digit19_neq isdigit_def byte_at_def)

lemma use_double_kind: "getType (fst (snd (use_double s2d a p))) = Double"
  by (simp add: use_double_def split: prod.split)

lemma parse_digits_literal:
  assumes d: "d = 1 \<or> d = - 1"
    and c: "0x31 \<le> (of_char c :: int)" "(of_char c :: int) \<le> 0x39"
    and ds: "list_all digit_char ds"
    and rest: "rest = [] \<or> \<not> digit_char (hd rest)"
  shows "(fits_int64 (fold_digits d 0 (c # ds))
            \<and> (rest = [] \<or> (hd rest \<noteq> CHR ''.'' \<and> hd rest \<noteq> CHR ''e'' \<and> hd rest \<noteq> CHR ''E''))
          \<longrightarrow> parse_digits s2d json a d (of_char c) (ds @ rest)
                = (success, JLong (of_int (fold_digits d 0 (c # ds))), rest))
       \<and> (\<not> fits_int64 (fold_digits d 0 (c # ds))
            \<or> (rest \<noteq> [] \<and> (hd rest = CHR ''e'' \<or> hd rest = CHR ''E''
                   \<or> (hd rest = CHR ''.'' \<and> 2 \<le> length rest \<and> digit_char (rest ! 1))))
          \<longrightarrow> (\<exists>p'. parse_digits s2d json a d (of_char c) (ds @ rest) = use_double s2d a p'))"
proof -
  let ?acc = "((of_char c :: int) - 0x30) * d"
  let ?F = "fold_digits d 0 (c # ds)"
  have F: "?F = fold_digits d ?acc ds" by (simp add: fold_digits_Cons)
  have dd: "d * d = 1" using d by auto
  have nn: "0 \<le> ?acc * d" using d c by auto
  have fa: "fits_int64 ?acc" using d c by (auto simp: fits_int64_def)
  note L = int_loop_digits[OF d ds nn fa, of rest]
  note R = int_loop_rest[OF rest]
  show ?thesis
  proof (cases "fits_int64 ?F")
    case True
    with L F have il: "int_loop (of_int ?acc) d (ds @ rest) = int_loop (of_int ?F) d rest"
      by simp
    have two: "rest \<noteq> [] \<Longrightarrow> 2 \<le> length rest \<Longrightarrow> rest ! 1 = hd (tl rest) \<and> tl rest \<noteq> []"
      by (cases rest; cases "tl rest") auto
    show ?thesis
      unfolding parse_digits_def il R[of "of_int ?F" d]
      using True two
      by (auto simp: digit_char_def byte_at_def hd_conv_nth)
  next
    case False
    with L F obtain p' where "int_loop (of_int ?acc) d (ds @ rest) = UseDouble p'"
      by auto
    with False show ?thesis
      by (auto simp: parse_digits_def)
  qed
qed

lemma parse_loop_zero:
  assumes "ctx AND (COLON OR COMMA OR KEY) = 0"
  shows "parse_loop P s2d mv depth json a d ctx (CHR ''0'' # p) = Some (parse_zero s2d json a p)"
  using assms by simp

lemma parse_loop_minus_zero:
  assumes "ctx AND (COLON OR COMMA OR KEY) = 0"
  shows "parse_loop P s2d mv depth json a d ctx (CHR ''-'' # CHR ''0'' # p)
           = Some (parse_zero s2d json a p)"
  using assms by (simp add: isdigit_def byte_at_def)

lemma parse_zero_plain:
  assumes "rest = [] \<or> (\<not> digit_char (hd rest) \<and> hd rest \<noteq> CHR ''.'' \<and> hd rest \<noteq> CHR ''e''
             \<and> hd rest \<noteq> CHR ''E'')"
  shows "parse_zero s2d json a rest = (success, JLong 0, rest)"
  using assms by (cases rest) (auto simp: parse_zero_def digit_char_def byte_at_def)


lemma parse_loop_skip:
  "skip_ctx ctx pre = Some ctx' \<Longrightarrow>
   parse_loop P s2d mv depth json a d ctx (pre @ p)
     = parse_loop P s2d mv depth json (if pre = [] then a else p) d ctx' p"
proof (induction pre arbitrary: a ctx)
  case Nil
  then show ?case by simp
next
  case (Cons ch pre)
  show ?case
  proof (cases "is_space ch")
    case True
    with Cons.prems have s: "skip_ctx ctx pre = Some ctx'" by simp
    from True have "ch = CHR '' '' \<or> ch = CHR 0x0A \<or> ch = CHR 0x0D \<or> ch = CHR 0x09"
      by (simp add: is_space_def)
    then have "parse_loop P s2d mv depth json a d ctx ((ch # pre) @ p)
        = parse_loop P s2d mv depth json (pre @ p) d ctx (pre @ p)"
      by simp
    with Cons.IH[OF s, of "pre @ p"] show ?thesis by simp
  next
    case False
    then have ns: "ch \<noteq> CHR '' ''" "ch \<noteq> CHR 0x0A" "ch \<noteq> CHR 0x0D" "ch \<noteq> CHR 0x09"
      by (auto simp: is_space_def)
    from False Cons.prems have
      cc: "(ch = CHR '','' \<and> ctx AND COMMA \<noteq> 0) \<or> (ch = CHR '':'' \<and> ctx AND COLON \<noteq> 0)"
      and s: "skip_ctx 0 pre = Some ctx'"
      by (auto split: if_splits)
    have "parse_loop P s2d mv depth json a d ctx ((ch # pre) @ p)
        = parse_loop P s2d mv depth json (pre @ p) d 0 (pre @ p)"
    proof (cases "ch = CHR '',''")
      case True
      with cc have "ctx AND COMMA \<noteq> 0" by auto
      with True show ?thesis by simp
    next
      case False
      with cc have "ch = CHR '':''" "ctx AND COLON \<noteq> 0" by auto
      then show ?thesis by simp
    qed
    with Cons.IH[OF s, of "pre @ p"] show ?thesis by simp
  qed
qed

lemma parse_skip:
  "skip_ctx ctx pre = Some ctx' \<Longrightarrow>
   parse s2d mv (Suc n) json (pre @ p) ctx = parse s2d mv (Suc n) json p ctx'"
  using parse_loop_skip[of ctx pre ctx' "parse s2d mv n" s2d mv "Suc n" json "pre @ p" 1 p]
  by (cases "pre = []") simp_all

lemma int_loop_overflow:
  assumes d: "d = 1 \<or> d = - 1"
  shows "list_all digit_char ds \<Longrightarrow> 0 \<le> acc * d \<Longrightarrow> fits_int64 acc \<Longrightarrow>
     \<not> fits_int64 (fold_digits d acc ds) \<Longrightarrow>
     \<exists>u w. ds = u @ w \<and> w \<noteq> [] \<and> fits_int64 (fold_digits d acc u)
       \<and> \<not> fits_int64 (fold_digits d acc (u @ [hd w]))
       \<and> int_loop (of_int acc) d (ds @ rest) = UseDouble (w @ rest)"
proof (induction ds arbitrary: acc)
  case Nil
  then show ?case by simp
next
  case (Cons ch ds)
  let ?dig = "(of_char ch :: int) - 0x30"
  let ?acc' = "acc * 10 + ?dig * d"
  from Cons.prems have dc: "digit_char ch" and dsd: "list_all digit_char ds" by simp_all
  from dc have dg: "0 \<le> ?dig" "?dig \<le> 9"
    by (simp_all add: digit_char_def isdigit_def)
  have dd: "d * d = 1" using d by auto
  have e1: "acc * 10 * d = acc * d * 10" by simp
  have e2: "?acc' * d = acc * d * 10 + ?dig * (d * d)" by (simp add: algebra_simps)
  have nn10: "0 \<le> acc * 10 * d" using Cons.prems(2) e1 by simp
  have le1: "acc * 10 * d \<le> ?acc' * d" using e1 e2 dd dg by simp
  have nn': "0 \<le> ?acc' * d" using nn10 le1 by simp
  have fd: "fits_int64 (?dig * d)" using d dg by (auto simp: fits_int64_def)
  have m: "ckd_mul (of_int acc) 10 = (\<not> fits_int64 (acc * 10), of_int (acc * 10))"
    using Cons.prems(3) by (rule ckd_mul_of_int)
  have a: "fits_int64 (acc * 10) \<Longrightarrow>
      ckd_add (of_int (acc * 10)) (of_int (?dig * d)) = (\<not> fits_int64 ?acc', of_int ?acc')"
    using fd by (simp only: ckd_add_of_int)
  have step: "int_loop (of_int acc) d ((ch # ds) @ rest) =
      (if \<not> fits_int64 (acc * 10) then UseDouble (ch # ds @ rest)
       else if \<not> fits_int64 ?acc' then UseDouble (ch # ds @ rest)
       else int_loop (of_int ?acc') d (ds @ rest))"
  proof (cases "fits_int64 (acc * 10)")
    case True
    show ?thesis
      apply (simp only: append_Cons int_loop_digit_step[OF dc] m prod.case True simp_thms if_False)
      apply (simp only: a[OF True] prod.case)
      done
  next
    case False
    show ?thesis
      by (simp only: append_Cons int_loop_digit_step[OF dc] m prod.case False simp_thms if_True)
  qed
  show ?case
  proof (cases "fits_int64 ?acc'")
    case True
    from fits_smaller[OF d nn10 le1 True] have f10: "fits_int64 (acc * 10)" .
    from Cons.prems(4) have "\<not> fits_int64 (fold_digits d ?acc' ds)"
      by (simp add: fold_digits_Cons)
    from Cons.IH[OF dsd nn' True this] obtain u w where
      uw: "ds = u @ w" "w \<noteq> []" "fits_int64 (fold_digits d ?acc' u)"
        "\<not> fits_int64 (fold_digits d ?acc' (u @ [hd w]))"
        "int_loop (of_int ?acc') d (ds @ rest) = UseDouble (w @ rest)"
      by blast
    from step f10 True uw(5)
    have "int_loop (of_int acc) d ((ch # ds) @ rest) = UseDouble (w @ rest)" by simp
    with uw(1-4) show ?thesis
      by (intro exI[of _ "ch # u"] exI[of _ w]) (simp add: fold_digits_Cons del: int_loop.simps)
  next
    case False
    have "int_loop (of_int acc) d ((ch # ds) @ rest) = UseDouble ((ch # ds) @ rest)"
      using step False by simp
    with False Cons.prems(3) show ?thesis
      by (intro exI[of _ "[]"] exI[of _ "ch # ds"]) (simp add: fold_digits_Cons del: int_loop.simps)
  qed
qed

lemma hd_nth_tl:
  "rest \<noteq> [] \<Longrightarrow> (tl rest = [] \<or> \<not> isdigit (byte_at (tl rest) 0))
     = (length rest = 1 \<or> \<not> digit_char (rest ! 1))"
  by (cases rest; cases "tl rest") (auto simp: digit_char_def byte_at_def)

lemmas sample_ev = sample_s2d_def number_char_def use_double_def

text \<open>
  C5, as stated, fails. The literal \<open>1.\<close> holds a dot, yet nothing is promoted to a
  floating-point parse: the loop returns \<open>bad_double\<close> at the dot, before the converter is
  called, and the value is left as it was, of kind neither Long nor Double.
\<close>

theorem C5_counterexample:
  "parse_public sample_s2d True ''1.'' = Some (bad_double, JNull :: (unit, string) Json)
   \<and> parse_public sample_s2d False ''1.'' = Some (bad_double, JNull :: (unit, string) Json)"
  by (simp add: parse_ev str_ev sample_ev)

text \<open>
  C5, as amended. A numeric literal stands wherever a value may start: behind a prefix
  \<open>pre\<close> of whitespace and of a comma or colon that the context admits
  (\<open>skip_ctx ctx pre = Some ctx'\<close>), at any depth; this is the state of every call the array
  and object loops make for an element or a member's value, and of the call of the public
  \<^verbatim>\<open>parse\<close>. The literal is a sign \<open>sg\<close> (empty, then \<open>d\<close> is +1, or a minus, then \<open>d\<close> is -1),
  a digit \<open>c\<close> from 1 to 9 and digits \<open>ds\<close>; \<open>rest\<close> behind it is empty or starts with a byte
  that is not a digit. \<open>tok\<close> is the input from the start of the literal, \<open>(v, k)\<close> what the
  converter returns on it, and \<open>F\<close> the exact fold of the digits, which is \<open>d\<close> times the
  number they denote. The checked fold of the code agrees with \<open>F\<close> as long as it fits
  (lemma \<open>int_loop_digits\<close>).
  \<^item> If \<open>F\<close> fits \<^verbatim>\<open>long long\<close> and \<open>rest\<close> does not start with a dot or an exponent mark, the
    parse succeeds with kind Long and the integer \<open>F\<close>, the cursor at \<open>rest\<close>.
  \<^item> If \<open>F\<close> fits and \<open>rest\<close> starts with a dot that no digit follows, the parse returns
    \<open>bad_double\<close> and leaves the value untouched.
  \<^item> If \<open>F\<close> fits and \<open>rest\<close> starts with an exponent mark, or with a dot and a digit, the
    token is promoted: the value becomes \<open>Double v\<close>, and the status is \<open>bad_double\<close> when the
    converter consumed nothing, \<open>bad_exponent\<close> when the byte behind the \<open>k\<close> bytes consumed is
    an exponent mark, and \<open>success\<close> otherwise, with the cursor \<open>k\<close> bytes behind the start of
    the literal.
  \<^item> If \<open>F\<close> does not fit, the loop stops at the first digit whose inclusion overflows
    (the digits \<open>u\<close> before it still fit) and the token is promoted in the same way.
  \<^item> A literal that starts with \<open>0\<close> (after the sign) and is followed by \<open>rest0\<close>: Long 0 when
    \<open>rest0\<close> starts with no digit, dot or exponent mark; \<open>unexpected_octal\<close> when it starts
    with a digit; \<open>bad_double\<close> when it starts with a dot that no digit follows; and the
    promotion above when it starts with an exponent mark or with a dot and a digit.
\<close>

theorem C5_numeric_literals:
  fixes json :: "('f, 'd) Json"
  assumes "skip_ctx ctx pre = Some ctx'" and "ctx' AND (COLON OR COMMA OR KEY) = 0"
    and "(d = 1 \<and> sg = []) \<or> (d = - 1 \<and> sg = ''-'')"
    and "0x31 \<le> (of_char c :: int)" and "(of_char c :: int) \<le> 0x39"
    and "list_all digit_char ds"
    and "rest = [] \<or> \<not> digit_char (hd rest)"
    and "tok = sg @ c # ds @ rest" and "s2d tok = (v, k)"
    and "F = fold_digits d 0 (c # ds)"
    and "tok0 = sg @ CHR ''0'' # rest0" and "s2d tok0 = (v0, k0)"
  shows "F = d * decimal (c # ds)
     \<and> (fits_int64 F
          \<and> (rest = [] \<or> (hd rest \<noteq> CHR ''.'' \<and> hd rest \<noteq> CHR ''e'' \<and> hd rest \<noteq> CHR ''E''))
        \<longrightarrow> parse s2d mv (Suc n) json (pre @ tok) ctx = Some (success, JLong (of_int F), rest)
            \<and> sint (of_int F :: 64 word) = F)
     \<and> (fits_int64 F \<and> rest \<noteq> [] \<and> hd rest = CHR ''.''
          \<and> (length rest = 1 \<or> \<not> digit_char (rest ! 1))
        \<longrightarrow> parse s2d mv (Suc n) json (pre @ tok) ctx = Some (bad_double, json, rest))
     \<and> (fits_int64 F
          \<and> rest \<noteq> [] \<and> (hd rest = CHR ''e'' \<or> hd rest = CHR ''E''
                 \<or> (hd rest = CHR ''.'' \<and> 2 \<le> length rest \<and> digit_char (rest ! 1)))
        \<longrightarrow> parse s2d mv (Suc n) json (pre @ tok) ctx
              = Some (if k \<le> 0 then (bad_double, JDouble v, rest)
                      else if nat k < length tok
                              \<and> (tok ! nat k = CHR ''e'' \<or> tok ! nat k = CHR ''E'')
                      then (bad_exponent, JDouble v, rest)
                      else (success, JDouble v, drop (nat k) tok)))
     \<and> (\<not> fits_int64 F
        \<longrightarrow> (\<exists>u w. ds = u @ w \<and> w \<noteq> [] \<and> fits_int64 (fold_digits d 0 (c # u))
              \<and> \<not> fits_int64 (fold_digits d 0 (c # u @ [hd w]))
              \<and> parse s2d mv (Suc n) json (pre @ tok) ctx
                  = Some (if k \<le> 0 then (bad_double, JDouble v, w @ rest)
                          else if nat k < length tok
                                  \<and> (tok ! nat k = CHR ''e'' \<or> tok ! nat k = CHR ''E'')
                          then (bad_exponent, JDouble v, w @ rest)
                          else (success, JDouble v, drop (nat k) tok))))
     \<and> (rest0 = [] \<or> (\<not> digit_char (hd rest0) \<and> hd rest0 \<noteq> CHR ''.'' \<and> hd rest0 \<noteq> CHR ''e''
                          \<and> hd rest0 \<noteq> CHR ''E'')
        \<longrightarrow> parse s2d mv (Suc n) json (pre @ tok0) ctx = Some (success, JLong 0, rest0))
     \<and> (rest0 \<noteq> [] \<and> digit_char (hd rest0)
        \<longrightarrow> parse s2d mv (Suc n) json (pre @ tok0) ctx = Some (unexpected_octal, json, rest0))
     \<and> (rest0 \<noteq> [] \<and> hd rest0 = CHR ''.'' \<and> (length rest0 = 1 \<or> \<not> digit_char (rest0 ! 1))
        \<longrightarrow> parse s2d mv (Suc n) json (pre @ tok0) ctx = Some (bad_double, json, rest0))
     \<and> (rest0 \<noteq> [] \<and> (hd rest0 = CHR ''e'' \<or> hd rest0 = CHR ''E''
                 \<or> (hd rest0 = CHR ''.'' \<and> 2 \<le> length rest0 \<and> digit_char (rest0 ! 1)))
        \<longrightarrow> parse s2d mv (Suc n) json (pre @ tok0) ctx
              = Some (if k0 \<le> 0 then (bad_double, JDouble v0, rest0)
                      else if nat k0 < length tok0
                              \<and> (tok0 ! nat k0 = CHR ''e'' \<or> tok0 ! nat k0 = CHR ''E'')
                      then (bad_exponent, JDouble v0, rest0)
                      else (success, JDouble v0, drop (nat k0) tok0)))"
proof -
  note ctx0 = assms(2)
  note c = assms(4,5)
  have d: "d = 1 \<or> d = - 1" using assms(3) by auto
  let ?acc = "((of_char c :: int) - 0x30) * d"
  have F: "F = fold_digits d ?acc ds" by (simp add: assms(10) fold_digits_Cons)
  have nn: "0 \<le> ?acc * d" using d c by auto
  have fa: "fits_int64 ?acc" using d c by (auto simp: fits_int64_def)
  note L = int_loop_digits[OF d assms(6) nn fa, of rest, folded F]
  note R = int_loop_rest[OF assms(7)]
  have sk: "parse s2d mv (Suc n) json (pre @ q) ctx = parse s2d mv (Suc n) json q ctx'" for q
    using assms(1) by (rule parse_skip)
  have pl: "parse s2d mv (Suc n) json (pre @ q) ctx
      = parse_loop (parse s2d mv n) s2d mv (Suc n) json q 1 ctx' q" for q
    unfolding sk by (simp only: parse.simps)
  have p: "parse s2d mv (Suc n) json (pre @ tok) ctx
             = Some (parse_digits s2d json tok d (of_char c) (ds @ rest))"
  proof (cases "d = 1")
    case True
    with assms(3,8) have "tok = c # ds @ rest" by auto
    with True show ?thesis
      by (simp only: pl parse_loop_digit19[OF ctx0 c])
  next
    case False
    with assms(3,8) have "d = - 1" "tok = CHR ''-'' # c # ds @ rest" by auto
    then show ?thesis
      by (simp only: pl parse_loop_minus[OF ctx0 c])
  qed
  have ud: "use_double s2d tok p' =
      (if k \<le> 0 then (bad_double, JDouble v, p')
       else if nat k < length tok \<and> (tok ! nat k = CHR ''e'' \<or> tok ! nat k = CHR ''E'')
       then (bad_exponent, JDouble v, p')
       else (success, JDouble v, drop (nat k) tok))" for p' :: string
    by (simp add: use_double_def assms(9))
  have A: "F = d * decimal (c # ds)"
    unfolding assms(10) by (rule fold_digits_decimal)
  have B: "fits_int64 F
          \<and> (rest = [] \<or> (hd rest \<noteq> CHR ''.'' \<and> hd rest \<noteq> CHR ''e'' \<and> hd rest \<noteq> CHR ''E''))
        \<longrightarrow> parse s2d mv (Suc n) json (pre @ tok) ctx = Some (success, JLong (of_int F), rest)
            \<and> sint (of_int F :: 64 word) = F"
  proof
    assume h: "fits_int64 F
          \<and> (rest = [] \<or> (hd rest \<noteq> CHR ''.'' \<and> hd rest \<noteq> CHR ''e'' \<and> hd rest \<noteq> CHR ''E''))"
    with L have il: "int_loop (of_int ?acc) d (ds @ rest) = int_loop (of_int F) d rest" by blast
    from h have "int_loop (of_int F) d rest = IntDone (of_int F) rest"
      unfolding R by auto
    with il have "parse_digits s2d json tok d (of_char c) (ds @ rest)
                = (success, JLong (of_int F), rest)"
      by (simp add: parse_digits_def)
    moreover from h have "sint (of_int F :: 64 word) = F" by (simp only: sint_of_int_fits)
    ultimately show "parse s2d mv (Suc n) json (pre @ tok) ctx
              = Some (success, JLong (of_int F), rest) \<and> sint (of_int F :: 64 word) = F"
      unfolding p by simp
  qed
  have B': "fits_int64 F \<and> rest \<noteq> [] \<and> hd rest = CHR ''.''
          \<and> (length rest = 1 \<or> \<not> digit_char (rest ! 1))
        \<longrightarrow> parse s2d mv (Suc n) json (pre @ tok) ctx = Some (bad_double, json, rest)"
  proof
    assume h: "fits_int64 F \<and> rest \<noteq> [] \<and> hd rest = CHR ''.''
          \<and> (length rest = 1 \<or> \<not> digit_char (rest ! 1))"
    with L have il: "int_loop (of_int ?acc) d (ds @ rest) = int_loop (of_int F) d rest" by blast
    from h have "tl rest = [] \<or> \<not> isdigit (byte_at (tl rest) 0)"
      using hd_nth_tl[of rest] by blast
    with h have "int_loop (of_int F) d rest = BadDouble rest"
      unfolding R by auto
    with il have "parse_digits s2d json tok d (of_char c) (ds @ rest) = (bad_double, json, rest)"
      by (simp add: parse_digits_def)
    then show "parse s2d mv (Suc n) json (pre @ tok) ctx = Some (bad_double, json, rest)"
      unfolding p by simp
  qed
  have C1: "fits_int64 F
          \<and> rest \<noteq> [] \<and> (hd rest = CHR ''e'' \<or> hd rest = CHR ''E''
                 \<or> (hd rest = CHR ''.'' \<and> 2 \<le> length rest \<and> digit_char (rest ! 1)))
        \<longrightarrow> parse s2d mv (Suc n) json (pre @ tok) ctx
              = Some (if k \<le> 0 then (bad_double, JDouble v, rest)
                      else if nat k < length tok
                              \<and> (tok ! nat k = CHR ''e'' \<or> tok ! nat k = CHR ''E'')
                      then (bad_exponent, JDouble v, rest)
                      else (success, JDouble v, drop (nat k) tok))"
  proof
    assume h: "fits_int64 F
          \<and> rest \<noteq> [] \<and> (hd rest = CHR ''e'' \<or> hd rest = CHR ''E''
                 \<or> (hd rest = CHR ''.'' \<and> 2 \<le> length rest \<and> digit_char (rest ! 1)))"
    with L have il: "int_loop (of_int ?acc) d (ds @ rest) = int_loop (of_int F) d rest" by blast
    from h have r: "rest \<noteq> []" "hd rest = CHR ''e'' \<or> hd rest = CHR ''E''
                 \<or> (hd rest = CHR ''.'' \<and> 2 \<le> length rest \<and> digit_char (rest ! 1))"
      by auto
    then have "hd rest = CHR ''.'' \<longrightarrow> \<not> (tl rest = [] \<or> \<not> isdigit (byte_at (tl rest) 0))"
      using hd_nth_tl[of rest] by auto
    with r have "int_loop (of_int F) d rest = UseDouble rest"
      unfolding R by auto
    with il have "parse_digits s2d json tok d (of_char c) (ds @ rest) = use_double s2d tok rest"
      by (simp add: parse_digits_def)
    then show "parse s2d mv (Suc n) json (pre @ tok) ctx
              = Some (if k \<le> 0 then (bad_double, JDouble v, rest)
                      else if nat k < length tok
                              \<and> (tok ! nat k = CHR ''e'' \<or> tok ! nat k = CHR ''E'')
                      then (bad_exponent, JDouble v, rest)
                      else (success, JDouble v, drop (nat k) tok))"
      unfolding p ud[symmetric] by simp
  qed
  have C2: "\<not> fits_int64 F
        \<longrightarrow> (\<exists>u w. ds = u @ w \<and> w \<noteq> [] \<and> fits_int64 (fold_digits d 0 (c # u))
              \<and> \<not> fits_int64 (fold_digits d 0 (c # u @ [hd w]))
              \<and> parse s2d mv (Suc n) json (pre @ tok) ctx
                  = Some (if k \<le> 0 then (bad_double, JDouble v, w @ rest)
                          else if nat k < length tok
                                  \<and> (tok ! nat k = CHR ''e'' \<or> tok ! nat k = CHR ''E'')
                          then (bad_exponent, JDouble v, w @ rest)
                          else (success, JDouble v, drop (nat k) tok)))"
  proof
    assume "\<not> fits_int64 F"
    then have nf: "\<not> fits_int64 (fold_digits d ?acc ds)" unfolding F .
    from int_loop_overflow[OF d assms(6) nn fa nf, of rest] obtain u w where
      uw: "ds = u @ w" "w \<noteq> []" "fits_int64 (fold_digits d ?acc u)"
        "\<not> fits_int64 (fold_digits d ?acc (u @ [hd w]))"
        "int_loop (of_int ?acc) d (ds @ rest) = UseDouble (w @ rest)"
      by blast
    from uw(5) have "parse_digits s2d json tok d (of_char c) (ds @ rest)
        = use_double s2d tok (w @ rest)"
      by (simp add: parse_digits_def)
    then have "parse s2d mv (Suc n) json (pre @ tok) ctx
                  = Some (if k \<le> 0 then (bad_double, JDouble v, w @ rest)
                          else if nat k < length tok
                                  \<and> (tok ! nat k = CHR ''e'' \<or> tok ! nat k = CHR ''E'')
                          then (bad_exponent, JDouble v, w @ rest)
                          else (success, JDouble v, drop (nat k) tok))"
      unfolding p ud[symmetric] by simp
    with uw(1-4) show "\<exists>u w. ds = u @ w \<and> w \<noteq> [] \<and> fits_int64 (fold_digits d 0 (c # u))
              \<and> \<not> fits_int64 (fold_digits d 0 (c # u @ [hd w]))
              \<and> parse s2d mv (Suc n) json (pre @ tok) ctx
                  = Some (if k \<le> 0 then (bad_double, JDouble v, w @ rest)
                          else if nat k < length tok
                                  \<and> (tok ! nat k = CHR ''e'' \<or> tok ! nat k = CHR ''E'')
                          then (bad_exponent, JDouble v, w @ rest)
                          else (success, JDouble v, drop (nat k) tok))"
      by (intro exI[of _ u] exI[of _ w]) (simp add: fold_digits_Cons)
  qed
  have p0: "parse s2d mv (Suc n) json (pre @ tok0) ctx = Some (parse_zero s2d json tok0 rest0)"
  proof (cases "d = 1")
    case True
    with assms(3,11) have "tok0 = CHR ''0'' # rest0" by auto
    then show ?thesis
      by (simp only: pl parse_loop_zero[OF ctx0])
  next
    case False
    with assms(3,11) have "tok0 = CHR ''-'' # CHR ''0'' # rest0" by auto
    then show ?thesis
      by (simp only: pl parse_loop_minus_zero[OF ctx0])
  qed
  have ud0: "use_double s2d tok0 rest0 =
      (if k0 \<le> 0 then (bad_double, JDouble v0, rest0)
       else if nat k0 < length tok0 \<and> (tok0 ! nat k0 = CHR ''e'' \<or> tok0 ! nat k0 = CHR ''E'')
       then (bad_exponent, JDouble v0, rest0)
       else (success, JDouble v0, drop (nat k0) tok0))"
    by (simp add: use_double_def assms(12))
  have Z1: "rest0 = [] \<or> (\<not> digit_char (hd rest0) \<and> hd rest0 \<noteq> CHR ''.'' \<and> hd rest0 \<noteq> CHR ''e''
                          \<and> hd rest0 \<noteq> CHR ''E'')
        \<longrightarrow> parse s2d mv (Suc n) json (pre @ tok0) ctx = Some (success, JLong 0, rest0)"
    unfolding p0 by (simp add: parse_zero_plain)
  have Z2: "rest0 \<noteq> [] \<and> digit_char (hd rest0)
        \<longrightarrow> parse s2d mv (Suc n) json (pre @ tok0) ctx = Some (unexpected_octal, json, rest0)"
    unfolding p0 by (cases rest0) (auto simp: parse_zero_def digit_char_def byte_at_def isdigit_def)
  have Z3: "rest0 \<noteq> [] \<and> hd rest0 = CHR ''.'' \<and> (length rest0 = 1 \<or> \<not> digit_char (rest0 ! 1))
        \<longrightarrow> parse s2d mv (Suc n) json (pre @ tok0) ctx = Some (bad_double, json, rest0)"
    unfolding p0 by (cases rest0) (auto simp: parse_zero_def digit_char_def byte_at_def)
  have Z4: "rest0 \<noteq> [] \<and> (hd rest0 = CHR ''e'' \<or> hd rest0 = CHR ''E''
                 \<or> (hd rest0 = CHR ''.'' \<and> 2 \<le> length rest0 \<and> digit_char (rest0 ! 1)))
        \<longrightarrow> parse s2d mv (Suc n) json (pre @ tok0) ctx
              = Some (if k0 \<le> 0 then (bad_double, JDouble v0, rest0)
                      else if nat k0 < length tok0
                              \<and> (tok0 ! nat k0 = CHR ''e'' \<or> tok0 ! nat k0 = CHR ''E'')
                      then (bad_exponent, JDouble v0, rest0)
                      else (success, JDouble v0, drop (nat k0) tok0))"
  proof
    assume h: "rest0 \<noteq> [] \<and> (hd rest0 = CHR ''e'' \<or> hd rest0 = CHR ''E''
                 \<or> (hd rest0 = CHR ''.'' \<and> 2 \<le> length rest0 \<and> digit_char (rest0 ! 1)))"
    then have "parse_zero s2d json tok0 rest0 = use_double s2d tok0 rest0"
      by (cases rest0) (auto simp: parse_zero_def digit_char_def byte_at_def)
    then show "parse s2d mv (Suc n) json (pre @ tok0) ctx
              = Some (if k0 \<le> 0 then (bad_double, JDouble v0, rest0)
                      else if nat k0 < length tok0
                              \<and> (tok0 ! nat k0 = CHR ''e'' \<or> tok0 ! nat k0 = CHR ''E'')
                      then (bad_exponent, JDouble v0, rest0)
                      else (success, JDouble v0, drop (nat k0) tok0))"
      unfolding p0 ud0 by simp
  qed
  from A B B' C1 C2 Z1 Z2 Z3 Z4 show ?thesis by blast
qed


text \<open>
  Witness for C5, with a converter that consumes the text of the number. At the top level
  \<open>-9223372036854775808\<close> is that Long, and \<open>9223372036854775808\<close> overflows and becomes a
  Double. As the second element of an array \<open>-1.5e3\<close> is a Double, as is \<open>0.25\<close> as the value
  of a member; \<open>12.\<close> there is \<open>bad_double\<close>. A converter that stops at \<open>1\<close> in \<open>1e\<close> gives
  \<open>bad_exponent\<close>, one that consumes nothing gives \<open>bad_double\<close>, and \<open>07\<close> is
  \<open>unexpected_octal\<close>.
\<close>

theorem C5_numeric_witness:
  "skip_ctx 0 [] = Some 0
   \<and> fold_digits (- 1) 0 ''9223372036854775808'' = - 9223372036854775808
   \<and> fits_int64 (- 9223372036854775808)
   \<and> parse sample_s2d True (Suc 19) (JNull :: (unit, string) Json) ''-9223372036854775808'' 0
        = Some (success, JLong (- 9223372036854775808), [])
   \<and> sint (- 9223372036854775808 :: 64 word) = - 9223372036854775808
   \<and> \<not> fits_int64 (fold_digits 1 0 ''9223372036854775808'')
   \<and> sample_s2d ''9223372036854775808'' = (''9223372036854775808'', 19)
   \<and> parse sample_s2d True (Suc 19) (JNull :: (unit, string) Json) ''9223372036854775808'' 0
        = Some (success, JDouble ''9223372036854775808'', [])
   \<and> skip_ctx (ARRAY OR COMMA) '', '' = Some 0
   \<and> sample_s2d ''-1.5e3]'' = (''-1.5e3'', 6)
   \<and> parse sample_s2d False (Suc 3) (JNull :: (unit, string) Json) '', -1.5e3]'' (ARRAY OR COMMA)
        = Some (success, JDouble ''-1.5e3'', '']'')
   \<and> skip_ctx COLON '': '' = Some 0
   \<and> parse sample_s2d False (Suc 3) (JNull :: (unit, string) Json) '': 0.25}'' COLON
        = Some (success, JDouble ''0.25'', ''}'')
   \<and> parse sample_s2d False (Suc 3) (JNull :: (unit, string) Json) '': 12.}'' COLON
        = Some (bad_double, JNull, ''.}'')
   \<and> parse (\<lambda>a. (''1'', 1)) False (Suc 3) (JNull :: (unit, string) Json) ''1e'' 0
        = Some (bad_exponent, JDouble ''1'', ''e'')
   \<and> parse (\<lambda>a. ([], 0)) False (Suc 3) (JNull :: (unit, string) Json) ''1e5'' 0
        = Some (bad_double, JDouble [], ''e5'')
   \<and> parse sample_s2d False (Suc 3) (JNull :: (unit, string) Json) ''07'' 0
        = Some (unexpected_octal, JNull, ''7'')"
proof -
  have k: "skip_ctx 0 [] = Some 0" "skip_ctx (ARRAY OR COMMA) '', '' = Some 0"
    "skip_ctx COLON '': '' = Some 0"
    by (simp_all add: ctx_defs is_space_def)
  have z: "0 AND (COLON OR COMMA OR KEY) = (0 :: int)" by simp
  have sp: "(1 = (1 :: int) \<and> ([] :: string) = []) \<or> (1 = (- 1 :: int) \<and> [] = ''-'')" by simp
  have sm: "(- 1 = (1 :: int) \<and> ''-'' = []) \<or> (- 1 = (- 1 :: int) \<and> ''-'' = ''-'')" by simp
  have c9: "0x31 \<le> (of_char CHR ''9'' :: int)" "(of_char CHR ''9'' :: int) \<le> 0x39" by simp_all
  have c1: "0x31 \<le> (of_char CHR ''1'' :: int)" "(of_char CHR ''1'' :: int) \<le> 0x39" by simp_all
  have dc: "list_all digit_char ''223372036854775808''" "list_all digit_char ''2''"
    "list_all digit_char []"
    by (simp_all add: digit_char_def isdigit_def)
  have nd: "\<not> digit_char CHR ''.''" "\<not> digit_char CHR ''e''" "\<not> digit_char CHR ''}''"
    "digit_char CHR ''7''" "digit_char CHR ''2''" "digit_char CHR ''5''"
    by (simp_all add: digit_char_def isdigit_def)
  have e: "- 9223372036854775808 = fold_digits (- 1) 0 ''9223372036854775808''"
    "9223372036854775808 = fold_digits 1 0 ''9223372036854775808''"
    "- 1 = fold_digits (- 1) 0 ''1''" "12 = fold_digits 1 0 ''12''" "1 = fold_digits 1 0 ''1''"
    by (simp_all add: fold_digits_def)
  have f: "fits_int64 (- 9223372036854775808)" "\<not> fits_int64 9223372036854775808"
    "fits_int64 (- 1)" "fits_int64 12" "fits_int64 1"
    by (simp_all add: fits_int64_def)
  have s: "sample_s2d ''-9223372036854775808'' = (''-9223372036854775808'', 20)"
    "sample_s2d ''9223372036854775808'' = (''9223372036854775808'', 19)"
    "sample_s2d ''-1.5e3]'' = (''-1.5e3'', 6)" "sample_s2d ''12.}'' = (''12.'', 3)"
    "sample_s2d ''0.25}'' = (''0.25'', 4)" "sample_s2d ''-0'' = (''-0'', 2)"
    "sample_s2d ''0'' = (''0'', 1)" "sample_s2d ''1'' = (''1'', 1)" "sample_s2d ''07'' = (''07'', 2)"
    by (simp_all add: sample_ev)
  have r0: "([] :: string) = [] \<or> \<not> digit_char (hd [])" by simp
  have r1: "''.5e3]'' = [] \<or> \<not> digit_char (hd ''.5e3]'')" using nd by simp
  have r2: "''.}'' = [] \<or> \<not> digit_char (hd ''.}'')" using nd by simp
  have r3: "''e'' = [] \<or> \<not> digit_char (hd ''e'')" using nd by simp
  have r4: "''e5'' = [] \<or> \<not> digit_char (hd ''e5'')" using nd by simp
  have t: "''-9223372036854775808'' = ''-'' @ CHR ''9'' # ''223372036854775808'' @ []"
    "''9223372036854775808'' = [] @ CHR ''9'' # ''223372036854775808'' @ []"
    "''-1.5e3]'' = ''-'' @ CHR ''1'' # [] @ ''.5e3]''" "''12.}'' = [] @ CHR ''1'' # ''2'' @ ''.}''"
    "''1e'' = [] @ CHR ''1'' # [] @ ''e''" "''1e5'' = [] @ CHR ''1'' # [] @ ''e5''"
    "''1'' = [] @ CHR ''1'' # [] @ []"
    "''-0'' = ''-'' @ CHR ''0'' # []" "''0'' = [] @ CHR ''0'' # []"
    "''0.25}'' = [] @ CHR ''0'' # ''.25}''" "''07'' = [] @ CHR ''0'' # ''7''"
    by simp_all
  have cs: "(\<lambda>a :: string. (''1'', 1 :: int)) ''1e'' = (''1'', 1)"
    "(\<lambda>a :: string. (''1'', 1 :: int)) ''0'' = (''1'', 1)"
    "(\<lambda>a :: string. ([] :: string, 0 :: int)) ''1e5'' = ([], 0)"
    "(\<lambda>a :: string. ([] :: string, 0 :: int)) ''0'' = ([], 0)"
    by simp_all
  note T1 = C5_numeric_literals[OF k(1) z sm c9 dc(1) r0 t(1) s(1) e(1) t(8) s(6),
      where json = "JNull :: (unit, string) Json" and mv = True and n = 19]
  note T2 = C5_numeric_literals[OF k(1) z sp c9 dc(1) r0 t(2) s(2) e(2) t(9) s(7),
      where json = "JNull :: (unit, string) Json" and mv = True and n = 19]
  note T3 = C5_numeric_literals[OF k(2) z sm c1 dc(3) r1 t(3) s(3) e(3) t(8) s(6),
      where json = "JNull :: (unit, string) Json" and mv = False and n = 3]
  note T4 = C5_numeric_literals[OF k(3) z sp c1 dc(2) r2 t(4) s(4) e(4) t(10) s(5),
      where json = "JNull :: (unit, string) Json" and mv = False and n = 3]
  note T5 = C5_numeric_literals[OF k(1) z sp c1 dc(3) r3 t(5) cs(1) e(5) t(9) cs(2),
      where json = "JNull :: (unit, string) Json" and mv = False and n = 3]
  note T6 = C5_numeric_literals[OF k(1) z sp c1 dc(3) r4 t(6) cs(3) e(5) t(9) cs(4),
      where json = "JNull :: (unit, string) Json" and mv = False and n = 3]
  note T7 = C5_numeric_literals[OF k(1) z sp c1 dc(3) r0 t(7) s(8) e(5) t(11) s(9),
      where json = "JNull :: (unit, string) Json" and mv = False and n = 3]
  from T1 f have A1: "parse sample_s2d True (Suc 19) (JNull :: (unit, string) Json)
        ''-9223372036854775808'' 0 = Some (success, JLong (- 9223372036854775808), [])
     \<and> sint (- 9223372036854775808 :: 64 word) = - 9223372036854775808"
    by (simp del: parse.simps)
  from T2 f have A2: "parse sample_s2d True (Suc 19) (JNull :: (unit, string) Json)
        ''9223372036854775808'' 0 = Some (success, JDouble ''9223372036854775808'', [])"
    by (auto simp del: parse.simps)
  from T3 f nd have A3: "parse sample_s2d False (Suc 3) (JNull :: (unit, string) Json)
        '', -1.5e3]'' (ARRAY OR COMMA) = Some (success, JDouble ''-1.5e3'', '']'')"
    by (simp del: parse.simps)
  from T4 f nd have A4: "parse sample_s2d False (Suc 3) (JNull :: (unit, string) Json)
        '': 0.25}'' COLON = Some (success, JDouble ''0.25'', ''}'')
     \<and> parse sample_s2d False (Suc 3) (JNull :: (unit, string) Json) '': 12.}'' COLON
        = Some (bad_double, JNull, ''.}'')"
    by (simp del: parse.simps)
  from T5 f nd have A5: "parse (\<lambda>a. (''1'', 1)) False (Suc 3) (JNull :: (unit, string) Json)
        ''1e'' 0 = Some (bad_exponent, JDouble ''1'', ''e'')"
    by (simp del: parse.simps)
  from T6 f nd have A6: "parse (\<lambda>a. ([], 0)) False (Suc 3) (JNull :: (unit, string) Json)
        ''1e5'' 0 = Some (bad_double, JDouble [], ''e5'')"
    by (simp del: parse.simps)
  from T7 f nd have A7: "parse sample_s2d False (Suc 3) (JNull :: (unit, string) Json) ''07'' 0
        = Some (unexpected_octal, JNull, ''7'')"
    by (simp del: parse.simps)
  from A1 A2 A3 A4 A5 A6 A7 k e[symmetric] f s show ?thesis
    by (simp del: parse.simps)
qed

subsection \<open>Unicode escapes in a string\<close>

text \<open>Masks, shifts and bitwise disjunction, read as arithmetic.\<close>

lemma and_low_bits: "(c::int) AND mask n = c mod 2 ^ n"
  by (simp add: take_bit_eq_mod flip: take_bit_eq_mask)

lemma and_3f: "(c::int) AND 0x3F = c mod 64"
  using and_low_bits[of c 6] by (simp add: mask_eq_exp_minus_1)

lemma and_0f: "(c::int) AND 0xF = c mod 16"
  using and_low_bits[of c 4] by (simp add: mask_eq_exp_minus_1)

lemma and_1f: "(c::int) AND 0x1F = c mod 32"
  using and_low_bits[of c 5] by (simp add: mask_eq_exp_minus_1)

lemma and_07: "(c::int) AND 7 = c mod 8"
  using and_low_bits[of c 3] by (simp add: mask_eq_exp_minus_1)

lemma or_add_disjoint:
  fixes M x :: int
  assumes "0 \<le> x" "x < 2 ^ k" "M AND mask k = 0"
  shows "M OR x = M + x"
proof -
  from assms(1,2) have "take_bit k x = x" by (simp add: take_bit_int_eq_self)
  then have x: "x = x AND mask k" by (simp add: take_bit_eq_mask)
  have "M AND x = M AND (x AND mask k)" using x by simp
  also have "\<dots> = (M AND mask k) AND x" by (simp add: ac_simps)
  also have "\<dots> = 0" using assms(3) by simp
  finally show ?thesis by (simp add: disjunctive_add_eq_or)
qed

lemma or_80: "0 \<le> x \<Longrightarrow> x < 64 \<Longrightarrow> (0x80::int) OR x = 0x80 + x"
  using or_add_disjoint[of x 6 "0x80"] by (simp add: mask_eq_exp_minus_1)

lemma or_c0: "0 \<le> x \<Longrightarrow> x < 32 \<Longrightarrow> (0xC0::int) OR x = 0xC0 + x"
  using or_add_disjoint[of x 5 "0xC0"] by (simp add: mask_eq_exp_minus_1)

lemma or_e0: "0 \<le> x \<Longrightarrow> x < 16 \<Longrightarrow> (0xE0::int) OR x = 0xE0 + x"
  using or_add_disjoint[of x 4 "0xE0"] by (simp add: mask_eq_exp_minus_1)

lemma or_f0: "0 \<le> x \<Longrightarrow> x < 8 \<Longrightarrow> (0xF0::int) OR x = 0xF0 + x"
  using or_add_disjoint[of x 3 "0xF0"] by (simp add: mask_eq_exp_minus_1)

text \<open>A bit field: the \<open>m\<close> bits from bit \<open>n\<close> on.\<close>

lemma and_field:
  fixes a :: int
  shows "a AND (mask (m + n) AND NOT (mask n)) = 2 ^ n * (a div 2 ^ n mod 2 ^ m)"
proof -
  have "a AND (mask (m + n) AND NOT (mask n)) = push_bit n (take_bit m (drop_bit n a))"
    by (simp add: slice_eq_mask ac_simps)
  also have "\<dots> = 2 ^ n * (a div 2 ^ n mod 2 ^ m)"
    by (simp add: push_bit_eq_mult take_bit_eq_mod drop_bit_eq_div)
  finally show ?thesis .
qed

lemma and_f800: "(c::int) AND 0xF800 = 2048 * (c div 2048 mod 32)"
  using and_field[of c 5 11] by (simp add: mask_eq_exp_minus_1)

lemma and_fc00: "(c::int) AND 0xFC00 = 1024 * (c div 1024 mod 64)"
  using and_field[of c 6 10] by (simp add: mask_eq_exp_minus_1)

lemma surrogate_range:
  fixes c :: int
  assumes "0 \<le> c" "c < 0x10000"
  shows "(0xF800 AND c) = 0xD800 \<longleftrightarrow> 0xD800 \<le> c \<and> c \<le> 0xDFFF"
proof -
  have "(0xF800 AND c) = c AND 0xF800" by (simp add: ac_simps)
  moreover from assms have "c div 2048 mod 32 = c div 2048" by simp
  ultimately have "(0xF800 AND c) = 2048 * (c div 2048)" by (simp add: and_f800)
  then show ?thesis using assms by auto
qed

lemma high_surrogate_range:
  fixes c :: int
  assumes "0 \<le> c" "c < 0x10000"
  shows "(c AND 0xFC00) = 0xD800 \<longleftrightarrow> 0xD800 \<le> c \<and> c \<le> 0xDBFF"
proof -
  from assms have "c div 1024 mod 64 = c div 1024" by simp
  then have "(c AND 0xFC00) = 1024 * (c div 1024)" by (simp add: and_fc00)
  then show ?thesis using assms by auto
qed

lemma low_surrogate_range:
  fixes c :: int
  assumes "0 \<le> c" "c < 0x10000"
  shows "(c AND 0xFC00) = 0xDC00 \<longleftrightarrow> 0xDC00 \<le> c \<and> c \<le> 0xDFFF"
proof -
  from assms have "c div 1024 mod 64 = c div 1024" by simp
  then have "(c AND 0xFC00) = 1024 * (c div 1024)" by (simp add: and_fc00)
  then show ?thesis using assms by auto
qed

lemma not_and_7: "0 \<le> x \<Longrightarrow> x < 7 \<Longrightarrow> (NOT (x :: int)) AND 7 \<noteq> 0"
  by (simp add: and_07 not_int_def) presburger

lemma EncodeUTF8_utf8_encoding:
  assumes "scalar_value c"
  shows "EncodeUTF8 c = utf8_encoding c"
proof -
  from assms have r: "0 \<le> c" "c \<le> 0x10FFFF" "\<not> (0xD800 \<le> c \<and> c \<le> 0xDFFF)"
    by (simp_all add: scalar_value_def)
  have m64: "0 \<le> x mod 64" "x mod 64 < 64" for x :: int by simp_all
  have low: "0x80 OR (x mod 64) = 0x80 + x mod 64" for x :: int
    by (rule or_80) simp_all
  consider "c \<le> 0x7f" | "0x7f < c" "c \<le> 0x7ff" | "0x7ff < c" "c \<le> 0xffff" | "0xffff < c"
    by linarith
  then show ?thesis
  proof cases
    case 1
    then show ?thesis by (simp add: EncodeUTF8_def utf8_encoding_def)
  next
    case 2
    then have "0 \<le> c div 64" "c div 64 < 32" by simp_all
    then have "0xC0 OR c div 64 = 0xC0 + c div 64" by (rule or_c0)
    with 2 show ?thesis
      by (simp add: EncodeUTF8_def utf8_encoding_def drop_bit_eq_div and_3f low)
  next
    case 3
    then have "0 \<le> c div 4096" "c div 4096 < 16" by simp_all
    then have hi: "0xE0 OR c div 4096 = 0xE0 + c div 4096" by (rule or_e0)
    from 3 r have ns: "\<not> IsSurrogate c"
      using surrogate_range[of c] by (simp add: IsSurrogate_def)
    from 3 ns show ?thesis
      by (simp add: EncodeUTF8_def utf8_encoding_def drop_bit_eq_div and_3f low hi)
  next
    case 4
    with r have "0 \<le> c div 262144" "c div 262144 < 7" by simp_all
    then have n7: "NOT (c div 262144) AND 7 \<noteq> 0" by (rule not_and_7)
    from 4 r have "0 \<le> c div 262144" "c div 262144 < 8" by simp_all
    then have hi: "0xF0 OR c div 262144 = 0xF0 + c div 262144" by (rule or_f0)
    from 4 n7 show ?thesis
      by (simp add: EncodeUTF8_def utf8_encoding_def drop_bit_eq_div and_3f low hi)
  qed
qed

lemma kHexToInt_range: "\<forall>x \<in> set kHexToInt. - 1 \<le> x \<and> x \<le> 15"
  by (simp add: kHexToInt_def)

lemma length_kHexToInt: "length kHexToInt = 256"
  by (simp add: kHexToInt_def)

lemma hex_at_range: "- 1 \<le> hex_at p i \<and> hex_at p i \<le> 15"
proof -
  have "(of_char (p ! i) :: int) < 256"
    using pos_mod_bound[of 256 "of_char (p ! i) :: int"] by simp
  then have "nat (byte_at p i) < length kHexToInt"
    by (simp add: byte_at_def length_kHexToInt)
  then have "kHexToInt ! nat (byte_at p i) \<in> set kHexToInt" by (rule nth_mem)
  with kHexToInt_range show ?thesis by (simp add: hex_at_def)
qed

lemma concat16:
  fixes x y :: int
  assumes "0 \<le> y" "y < 16"
  shows "push_bit 4 x OR y = 16 * x + y"
proof -
  have "push_bit 4 x AND mask 4 = 0"
    by (simp add: take_bit_push_bit flip: take_bit_eq_mask)
  with assms have "push_bit 4 x OR y = push_bit 4 x + y"
    using or_add_disjoint[of y 4 "push_bit 4 x"] by simp
  then show ?thesis by (simp add: push_bit_eq_mult)
qed

lemma hex4_value:
  assumes "hex4_ok p i"
  shows "hex4_at p i = 4096 * hex_at p i + 256 * hex_at p (i + 1) + 16 * hex_at p (i + 2)
           + hex_at p (i + 3)"
    and "0 \<le> hex4_at p i" and "hex4_at p i < 0x10000"
proof -
  let ?A = "hex_at p i" and ?B = "hex_at p (i + 1)" and ?C = "hex_at p (i + 2)"
    and ?D = "hex_at p (i + 3)"
  from assms hex_at_range[of p i] hex_at_range[of p "i + 1"] hex_at_range[of p "i + 2"]
    hex_at_range[of p "i + 3"]
  have r: "0 \<le> ?A" "?A \<le> 15" "0 \<le> ?B" "?B \<le> 15" "0 \<le> ?C" "?C \<le> 15" "0 \<le> ?D" "?D \<le> 15"
    by (auto simp: hex4_ok_def)
  have "hex4_at p i = push_bit 4 (push_bit 4 (push_bit 4 ?A OR ?B) OR ?C) OR ?D"
    by (simp add: hex4_at_def push_bit_or or.assoc)
  also have "\<dots> = 16 * (16 * (16 * ?A + ?B) + ?C) + ?D"
    using r by (simp add: concat16)
  finally show v: "hex4_at p i = 4096 * ?A + 256 * ?B + 16 * ?C + ?D" by simp
  from v r show "0 \<le> hex4_at p i" by simp
  from v r show "hex4_at p i < 0x10000" by simp
qed

lemma MergeUtf16_scalar:
  assumes "0xD800 \<le> hi" "hi \<le> 0xDBFF" "0xDC00 \<le> lo" "lo \<le> 0xDFFF"
  shows "MergeUtf16 hi lo = 0x10000 + 0x400 * (hi - 0xD800) + (lo - 0xDC00)"
    and "scalar_value (MergeUtf16 hi lo)" and "0x10000 \<le> MergeUtf16 hi lo"
  using assms by (simp_all add: MergeUtf16_def push_bit_eq_mult scalar_value_def)

lemma string_step_backslash: "string_step 0x5C p = escape_step p"
  by (simp add: string_step_def kJsonStr_def ASCII_def DQUOTE_def BACKSLASH_def)

lemma string_loop_escape:
  "string_loop b (CHR 0x5C # p) =
     (case escape_step p of
        Close \<Rightarrow> (success, b, p)
      | Fail status k \<Rightarrow> (status, b, drop k p)
      | Append w k \<Rightarrow> string_loop (b @ w) (drop k p))"
  by (simp add: string_step_backslash)

lemma escape_step_u:
  "escape_step (CHR ''u'' # q) =
     (if 4 \<le> length q \<and> hex4_ok q 0 then
        (let c = hex4_at q 0 in
         if \<not> IsSurrogate c then Append (EncodeUTF8 c) 5
         else if IsHighSurrogate c then
           (if 10 \<le> length q \<and> q ! 4 = CHR 0x5C \<and> q ! 5 = CHR ''u'' \<and> hex4_ok q 6 then
              (let u = hex4_at q 6 in
               if IsLowSurrogate u then Append (EncodeUTF8 (MergeUtf16 c u)) 11
               else Append BadUnicode 1)
            else Append BadUnicode 1)
         else Append BadUnicode 1)
      else Fail invalid_unicode_escape 1)"
  by (simp add: escape_step_def)

text \<open>
  Claim C7. Let the tokenizer stand at a \<open>\\u\<close> escape inside a string whose four hex digits
  denote the code unit \<open>c\<close> (the source's condition \<open>p + 4 \<le> e\<close> with four valid digits).
  \<^item> \<open>IsSurrogate c\<close> holds exactly for \<open>0xD800 \<le> c \<le> 0xDFFF\<close>.
  \<^item> If \<open>c\<close> is not a surrogate, the standard UTF-8 encoding of \<open>c\<close> is appended and the scan
    goes on behind the four digits.
  \<^item> If \<open>c\<close> is a high surrogate and a \<open>\\u\<close> escape with a low surrogate \<open>u\<close> follows at
    once, the pair is merged into \<open>0x10000 + 0x400 * (c - 0xD800) + (u - 0xDC00)\<close>, a scalar
    value, its UTF-8 encoding is appended as one sequence and the scan goes on behind both
    escapes.
  \<^item> In every other case (a high surrogate with anything else behind it, or a low surrogate)
    the two ASCII bytes backslash and \<open>u\<close> are appended and the scan goes on at the first hex
    digit, so the digits are read as ordinary characters.
\<close>

theorem C7_unicode_escapes:
  assumes "4 \<le> length q" and "hex4_ok q 0"
  shows "(IsSurrogate (hex4_at q 0) \<longleftrightarrow> 0xD800 \<le> hex4_at q 0 \<and> hex4_at q 0 \<le> 0xDFFF)
    \<and> (\<not> IsSurrogate (hex4_at q 0) \<longrightarrow>
          scalar_value (hex4_at q 0) \<and> hex4_at q 0 < 0x10000
          \<and> string_loop b (CHR 0x5C # CHR ''u'' # q)
              = string_loop (b @ utf8_encoding (hex4_at q 0)) (drop 4 q))
    \<and> (IsHighSurrogate (hex4_at q 0) \<and> 10 \<le> length q \<and> q ! 4 = CHR 0x5C \<and> q ! 5 = CHR ''u''
          \<and> hex4_ok q 6 \<and> IsLowSurrogate (hex4_at q 6) \<longrightarrow>
          MergeUtf16 (hex4_at q 0) (hex4_at q 6)
            = 0x10000 + 0x400 * (hex4_at q 0 - 0xD800) + (hex4_at q 6 - 0xDC00)
          \<and> scalar_value (MergeUtf16 (hex4_at q 0) (hex4_at q 6))
          \<and> string_loop b (CHR 0x5C # CHR ''u'' # q)
              = string_loop (b @ utf8_encoding (MergeUtf16 (hex4_at q 0) (hex4_at q 6)))
                  (drop 10 q))
    \<and> (IsSurrogate (hex4_at q 0)
          \<and> \<not> (IsHighSurrogate (hex4_at q 0) \<and> 10 \<le> length q \<and> q ! 4 = CHR 0x5C
                 \<and> q ! 5 = CHR ''u'' \<and> hex4_ok q 6 \<and> IsLowSurrogate (hex4_at q 6)) \<longrightarrow>
          string_loop b (CHR 0x5C # CHR ''u'' # q)
            = string_loop (b @ [CHR 0x5C, CHR ''u'']) q)"
proof -
  let ?c = "hex4_at q 0"
  note r = hex4_value(2,3)[OF assms(2)]
  have S: "IsSurrogate ?c \<longleftrightarrow> 0xD800 \<le> ?c \<and> ?c \<le> 0xDFFF"
    unfolding IsSurrogate_def using r by (rule surrogate_range)
  have loop: "string_loop b (CHR 0x5C # CHR ''u'' # q) =
     (case escape_step (CHR ''u'' # q) of
        Close \<Rightarrow> (success, b, CHR ''u'' # q)
      | Fail status k \<Rightarrow> (status, b, drop k (CHR ''u'' # q))
      | Append w k \<Rightarrow> string_loop (b @ w) (drop k (CHR ''u'' # q)))"
    by (rule string_loop_escape)
  have A: "\<not> IsSurrogate ?c \<longrightarrow>
          scalar_value ?c \<and> ?c < 0x10000
          \<and> string_loop b (CHR 0x5C # CHR ''u'' # q) = string_loop (b @ utf8_encoding ?c) (drop 4 q)"
  proof
    assume ns: "\<not> IsSurrogate ?c"
    with S r have sv: "scalar_value ?c" by (simp add: scalar_value_def)
    have "string_loop b (CHR 0x5C # CHR ''u'' # q) = string_loop (b @ EncodeUTF8 ?c) (drop 4 q)"
      unfolding loop escape_step_u using assms ns by (simp add: Let_def)
    with sv r show "scalar_value ?c \<and> ?c < 0x10000
          \<and> string_loop b (CHR 0x5C # CHR ''u'' # q) = string_loop (b @ utf8_encoding ?c) (drop 4 q)"
      by (simp add: EncodeUTF8_utf8_encoding)
  qed
  have B: "IsHighSurrogate ?c \<and> 10 \<le> length q \<and> q ! 4 = CHR 0x5C \<and> q ! 5 = CHR ''u''
          \<and> hex4_ok q 6 \<and> IsLowSurrogate (hex4_at q 6) \<longrightarrow>
          MergeUtf16 ?c (hex4_at q 6) = 0x10000 + 0x400 * (?c - 0xD800) + (hex4_at q 6 - 0xDC00)
          \<and> scalar_value (MergeUtf16 ?c (hex4_at q 6))
          \<and> string_loop b (CHR 0x5C # CHR ''u'' # q)
              = string_loop (b @ utf8_encoding (MergeUtf16 ?c (hex4_at q 6))) (drop 10 q)"
  proof
    assume h: "IsHighSurrogate ?c \<and> 10 \<le> length q \<and> q ! 4 = CHR 0x5C \<and> q ! 5 = CHR ''u''
          \<and> hex4_ok q 6 \<and> IsLowSurrogate (hex4_at q 6)"
    then have ok6: "hex4_ok q 6" by simp
    note r6 = hex4_value(2,3)[OF ok6]
    from h r have hi: "0xD800 \<le> ?c" "?c \<le> 0xDBFF"
      using high_surrogate_range[of ?c] by (simp_all add: IsHighSurrogate_def)
    from h r6 have lo: "0xDC00 \<le> hex4_at q 6" "hex4_at q 6 \<le> 0xDFFF"
      using low_surrogate_range[of "hex4_at q 6"] by (simp_all add: IsLowSurrogate_def)
    note M = MergeUtf16_scalar[OF hi lo]
    from hi S have s: "IsSurrogate ?c" by simp
    have "string_loop b (CHR 0x5C # CHR ''u'' # q)
            = string_loop (b @ EncodeUTF8 (MergeUtf16 ?c (hex4_at q 6))) (drop 10 q)"
      unfolding loop escape_step_u using assms h s by (simp add: Let_def)
    with M show "MergeUtf16 ?c (hex4_at q 6) = 0x10000 + 0x400 * (?c - 0xD800) + (hex4_at q 6 - 0xDC00)
          \<and> scalar_value (MergeUtf16 ?c (hex4_at q 6))
          \<and> string_loop b (CHR 0x5C # CHR ''u'' # q)
              = string_loop (b @ utf8_encoding (MergeUtf16 ?c (hex4_at q 6))) (drop 10 q)"
      by (simp add: EncodeUTF8_utf8_encoding)
  qed
  have C: "IsSurrogate ?c
          \<and> \<not> (IsHighSurrogate ?c \<and> 10 \<le> length q \<and> q ! 4 = CHR 0x5C
                 \<and> q ! 5 = CHR ''u'' \<and> hex4_ok q 6 \<and> IsLowSurrogate (hex4_at q 6)) \<longrightarrow>
          string_loop b (CHR 0x5C # CHR ''u'' # q) = string_loop (b @ [CHR 0x5C, CHR ''u'']) q"
  proof
    assume h: "IsSurrogate ?c
          \<and> \<not> (IsHighSurrogate ?c \<and> 10 \<le> length q \<and> q ! 4 = CHR 0x5C
                 \<and> q ! 5 = CHR ''u'' \<and> hex4_ok q 6 \<and> IsLowSurrogate (hex4_at q 6))"
    show "string_loop b (CHR 0x5C # CHR ''u'' # q) = string_loop (b @ [CHR 0x5C, CHR ''u'']) q"
      unfolding loop escape_step_u using assms h by (auto simp add: Let_def BadUnicode_def)
  qed
  from S A B C show ?thesis by blast
qed

theorem C7_witness:
  \<open>(4 \<le> length (''D834'' @ [CHR 0x5C] @ ''uDD1E"'') \<and> hex4_ok (''D834'' @ [CHR 0x5C] @ ''uDD1E"'') 0
     \<and> IsHighSurrogate (hex4_at (''D834'' @ [CHR 0x5C] @ ''uDD1E"'') 0)
     \<and> hex4_ok (''D834'' @ [CHR 0x5C] @ ''uDD1E"'') 6
     \<and> IsLowSurrogate (hex4_at (''D834'' @ [CHR 0x5C] @ ''uDD1E"'') 6)
     \<and> MergeUtf16 0xD834 0xDD1E = 0x1D11E
     \<and> utf8_encoding 0x1D11E = [CHR 0xF0, CHR 0x9D, CHR 0x84, CHR 0x9E]
     \<and> string_loop [] (CHR 0x5C # CHR ''u'' # ''D834'' @ [CHR 0x5C] @ ''uDD1E"'')
         = (success, [CHR 0xF0, CHR 0x9D, CHR 0x84, CHR 0x9E], []))
   \<and> (hex4_ok ''00e9"'' 0 \<and> \<not> IsSurrogate (hex4_at ''00e9"'' 0)
     \<and> string_loop [] (CHR 0x5C # CHR ''u'' # ''00e9"'') = (success, [CHR 0xC3, CHR 0xA9], []))
   \<and> (hex4_ok ''DFAA"'' 0 \<and> IsSurrogate (hex4_at ''DFAA"'' 0)
     \<and> \<not> IsHighSurrogate (hex4_at ''DFAA"'' 0)
     \<and> string_loop [] (CHR 0x5C # CHR ''u'' # ''DFAA"'')
         = (success, [CHR 0x5C, CHR ''u'', CHR ''D'', CHR ''F'', CHR ''A'', CHR ''A''], []))
   \<and> (hex4_ok ''D834x"'' 0 \<and> IsHighSurrogate (hex4_at ''D834x"'' 0)
     \<and> string_loop [] (CHR 0x5C # CHR ''u'' # ''D834x"'')
         = (success, [CHR 0x5C, CHR ''u'', CHR ''D'', CHR ''8'', CHR ''3'', CHR ''4'', CHR ''x''], []))\<close>
  using C7_unicode_escapes [of \<open>''D834'' @ [CHR 0x5C] @ ''uDD1E"''\<close> "[]"]
    C7_unicode_escapes [of \<open>''00e9"''\<close> "[]"]
    C7_unicode_escapes [of \<open>''DFAA"''\<close> "[]"]
    C7_unicode_escapes [of \<open>''D834x"''\<close> "[]"]
  by (simp add: str_ev utf8_encoding_def)

end
